theory Spec2Isabelle
  imports Main "HOL-Library.Monad_Syntax"
begin

section \<open>Data model\<close>

text \<open>
  The embedding follows \<^verbatim>\<open>src/managers/ChessAiManager/ChessAiManager.ts\<close>.
  chess.js types: \<^verbatim>\<open>PieceColor = "w" | "b"\<close> and
  \<^verbatim>\<open>PieceType = "p" | "n" | "b" | "r" | "q" | "k"\<close>.
\<close>

datatype PieceColor = White | Black

datatype PieceType = Pawn | Knight | Bishop | Rook | Queen | King

text \<open>
  A JavaScript \<^verbatim>\<open>number\<close> as the search uses it: an integer score, or one of the two
  infinities that initialise \<^verbatim>\<open>alpha\<close>, \<^verbatim>\<open>beta\<close>, \<^verbatim>\<open>maxVal\<close> and \<^verbatim>\<open>minVal\<close>.
  Scores are sums of integer table entries, so rounding plays no part; adding a finite
  quantity to an infinity leaves it as it is.
\<close>

datatype number = NegInfinity | Num int | Infinity

fun num_le :: "number \<Rightarrow> number \<Rightarrow> bool" where
  "num_le NegInfinity y = True"
| "num_le (Num x) NegInfinity = False"
| "num_le (Num x) (Num y) = (x \<le> y)"
| "num_le (Num x) Infinity = True"
| "num_le Infinity Infinity = True"
| "num_le Infinity y = False"

instantiation number :: linorder
begin

definition less_eq_number :: "number \<Rightarrow> number \<Rightarrow> bool" where
  "less_eq_number x y = num_le x y"

definition less_number :: "number \<Rightarrow> number \<Rightarrow> bool" where
  "less_number x y = (num_le x y \<and> \<not> num_le y x)"

instance
proof
  fix x y z :: number
  show "(x < y) = (x \<le> y \<and> \<not> y \<le> x)"
    by (simp add: less_eq_number_def less_number_def)
  show "x \<le> x"
    by (cases x) (simp_all add: less_eq_number_def)
  show "x \<le> y \<Longrightarrow> y \<le> z \<Longrightarrow> x \<le> z"
    by (cases x; cases y; cases z) (simp_all add: less_eq_number_def)
  show "x \<le> y \<Longrightarrow> y \<le> x \<Longrightarrow> x = y"
    by (cases x; cases y) (simp_all add: less_eq_number_def)
  show "x \<le> y \<or> y \<le> x"
    by (cases x; cases y) (auto simp add: less_eq_number_def)
qed

end

text \<open>\<^verbatim>\<open>x += d\<close> and \<^verbatim>\<open>x -= d\<close> for a finite \<^verbatim>\<open>d\<close>.\<close>

fun num_add :: "number \<Rightarrow> int \<Rightarrow> number" where
  "num_add (Num x) d = Num (x + d)"
| "num_add NegInfinity d = NegInfinity"
| "num_add Infinity d = Infinity"

definition num_sub :: "number \<Rightarrow> int \<Rightarrow> number" where
  "num_sub x d = num_add x (- d)"

subsection \<open>Arrays on the heap\<close>

text \<open>
  The piece-square tables are nested JavaScript arrays, and \<^verbatim>\<open>Array.prototype.reverse\<close>
  works in place, so arrays live in a store: an address is an index into the heap, a cell
  holds the elements of one array, and an element is a number or the address of another
  array. Objects are never written to after they are built and are kept as values.
\<close>

datatype val = NumV int | ArrV nat

type_synonym heap = "val list list"

text \<open>
  \<^verbatim>\<open>PieceSquareTables\<close>: an object with one property per piece type, in key order.
\<close>

type_synonym PieceSquareTables = "(PieceType \<times> val) list"

text \<open>What a table set holds, read through the heap: the grid of every property.\<close>

fun num_of :: "val \<Rightarrow> int option" where
  "num_of (NumV i) = Some i"
| "num_of (ArrV a) = None"

fun row_at :: "heap \<Rightarrow> val \<Rightarrow> int list option" where
  "row_at h (ArrV r) = (if r < length h then those (map num_of (h ! r)) else None)"
| "row_at h (NumV i) = None"

fun grid_at :: "heap \<Rightarrow> val \<Rightarrow> int list list option" where
  "grid_at h (ArrV a) = (if a < length h then those (map (row_at h) (h ! a)) else None)"
| "grid_at h (NumV i) = None"

definition tables_at :: "heap \<Rightarrow> PieceSquareTables \<Rightarrow> (PieceType \<times> int list list) list option" where
  "tables_at h t =
     those (map (\<lambda>(p, v). case grid_at h v of None \<Rightarrow> None | Some g \<Rightarrow> Some (p, g)) t)"

subsection \<open>Moves, positions and the imported constants\<close>

text \<open>
  The chess.js \<^verbatim>\<open>Move\<close> record (fields prefixed, since \<^verbatim>\<open>color\<close> is also a field of the
  manager and \<^verbatim>\<open>from\<close> is reserved): squares are the strings \<^verbatim>\<open>"a1"\<close> to \<^verbatim>\<open>"h8"\<close>,
  \<^verbatim>\<open>captured\<close> and \<^verbatim>\<open>promotion\<close> are optional.
\<close>

record Move =
  mv_color :: PieceColor
  mv_from :: string
  mv_to :: string
  mv_flags :: string
  mv_piece :: PieceType
  mv_captured :: "PieceType option"
  mv_promotion :: "PieceType option"
  mv_san :: string

record PieceChessPosition =
  row :: nat
  column :: nat

text \<open>
  What the module imports and this repository's \<^verbatim>\<open>src/\<close> does not hold, taken as
  parameters: the constants \<^verbatim>\<open>PIECE_SQUARE_TABLES\<close> and \<^verbatim>\<open>PIECE_WEIGHTS\<close>, the helper
  \<^verbatim>\<open>getMatrixPosition\<close>, and lodash's \<^verbatim>\<open>cloneDeep\<close>, which allocates and therefore
  takes and returns the heap.
\<close>

record env =
  PIECE_SQUARE_TABLES :: PieceSquareTables
  PIECE_WEIGHTS :: "PieceType \<Rightarrow> int"
  getMatrixPosition :: "string \<Rightarrow> PieceChessPosition"
  cloneDeep :: "heap \<Rightarrow> PieceSquareTables \<Rightarrow> PieceSquareTables \<times> heap"

text \<open>
  The rules engine (a chess.js \<^verbatim>\<open>ChessInstance\<close>) is a parameter as well: a state of type
  \<open>'e\<close> and the operations the manager calls. \<^verbatim>\<open>move\<close> accepts a SAN string, a move
  object or (from \<^verbatim>\<open>calcAiMove\<close>) \<^verbatim>\<open>null\<close>, and returns the played \<^verbatim>\<open>Move\<close> or
  \<^verbatim>\<open>null\<close>.
\<close>

datatype move_arg = San string | Obj Move | Null

record 'e ChessInstance =
  new_Chess :: "'e"
  moves :: "'e \<Rightarrow> string list"
  move :: "'e \<Rightarrow> move_arg \<Rightarrow> Move option \<times> 'e"
  undo :: "'e \<Rightarrow> 'e"
  load :: "'e \<Rightarrow> string \<Rightarrow> 'e"

text \<open>
  The manager object. \<^verbatim>\<open>color\<close> and the two table fields are \<^verbatim>\<open>undefined\<close> until
  \<^verbatim>\<open>init\<close> runs (\<open>None\<close>); \<^verbatim>\<open>prevSum\<close> starts at 0.
\<close>

record 'e ChessAiManager =
  color :: "PieceColor option"
  aiSquareTables :: "PieceSquareTables option"
  opponentSquareTables :: "PieceSquareTables option"
  chessEngine :: "'e"
  prevSum :: number

definition constructor :: "'e ChessInstance \<Rightarrow> 'e ChessAiManager" where
  "constructor E =
     \<lparr>color = None, aiSquareTables = None, opponentSquareTables = None,
      chessEngine = new_Chess E, prevSum = Num 0\<rparr>"

section \<open>Piece-square table builder\<close>

text \<open>
  The loop \<^verbatim>\<open>for (const value of Object.values(cloned)) value.reverse()\<close>: each property
  value must be an array, which is reversed in place. A value without a \<^verbatim>\<open>reverse\<close>
  method raises a TypeError (\<open>None\<close>).
\<close>

fun reverse_each :: "heap \<Rightarrow> val list \<Rightarrow> heap option" where
  "reverse_each h [] = Some h"
| "reverse_each h (ArrV a # vs) =
     (if a < length h then reverse_each (h[a := rev (h ! a)]) vs else None)"
| "reverse_each h (NumV i # vs) = None"

definition reverseSquareTablesForBlack :: "env \<Rightarrow> heap \<Rightarrow> (PieceSquareTables \<times> heap) option" where
  "reverseSquareTablesForBlack K h =
     (case cloneDeep K h (PIECE_SQUARE_TABLES K) of (cloned, h1) \<Rightarrow>
        (case reverse_each h1 (map snd cloned) of
           None \<Rightarrow> None
         | Some h2 \<Rightarrow> Some (cloned, h2)))"

definition blackStartInit :: "env \<Rightarrow> heap \<Rightarrow> 'e ChessAiManager \<Rightarrow> ('e ChessAiManager \<times> heap) option" where
  "blackStartInit K h this =
     (case reverseSquareTablesForBlack K h of
        None \<Rightarrow> None
      | Some (reversed, h1) \<Rightarrow>
          (case cloneDeep K h1 (PIECE_SQUARE_TABLES K) of (cloned, h2) \<Rightarrow>
             Some (this\<lparr>aiSquareTables := Some reversed, opponentSquareTables := Some cloned\<rparr>, h2)))"

definition whiteStartInit :: "env \<Rightarrow> heap \<Rightarrow> 'e ChessAiManager \<Rightarrow> ('e ChessAiManager \<times> heap) option" where
  "whiteStartInit K h this =
     (case cloneDeep K h (PIECE_SQUARE_TABLES K) of (cloned, h1) \<Rightarrow>
        (case reverseSquareTablesForBlack K h1 of
           None \<Rightarrow> None
         | Some (reversed, h2) \<Rightarrow>
             Some (this\<lparr>aiSquareTables := Some cloned, opponentSquareTables := Some reversed\<rparr>, h2)))"

definition isWhite :: "'e ChessAiManager \<Rightarrow> bool" where
  "isWhite this = (color this = Some White)"

definition isBlack :: "'e ChessAiManager \<Rightarrow> bool" where
  "isBlack this = (color this = Some Black)"

definition init :: "env \<Rightarrow> 'e ChessInstance \<Rightarrow> heap \<Rightarrow> 'e ChessAiManager \<Rightarrow> PieceColor \<Rightarrow> string
    \<Rightarrow> ('e ChessAiManager \<times> heap) option" where
  "init K E h this c fen =
     (let this1 = this\<lparr>color := Some c\<rparr>;
          this2 = this1\<lparr>chessEngine := load E (chessEngine this1) fen\<rparr>
      in if isBlack this2 then blackStartInit K h this2 else whiteStartInit K h this2)"

text \<open>
  What the code relies on from \<^verbatim>\<open>cloneDeep\<close> (lodash documents a recursive copy):
  the heap only grows, the copy has the same keys and holds the same grids, every array
  of the copy is new, and no two properties of the copy share an array unless two
  properties of the original did.
\<close>

definition fresh_grid :: "heap \<Rightarrow> heap \<Rightarrow> val \<Rightarrow> bool" where
  "fresh_grid h h1 v =
     (case v of
        NumV i \<Rightarrow> False
      | ArrV a \<Rightarrow> length h \<le> a \<and> a < length h1 \<and>
          list_all (\<lambda>x. case x of NumV i \<Rightarrow> False | ArrV r \<Rightarrow> length h \<le> r) (h1 ! a))"

definition deep_copy :: "heap \<Rightarrow> PieceSquareTables \<Rightarrow> PieceSquareTables \<times> heap \<Rightarrow> bool" where
  "deep_copy h t res =
     (case res of (c, h1) \<Rightarrow>
        take (length h) h1 = h \<and> map fst c = map fst t \<and> tables_at h1 c = tables_at h t \<and>
        list_all (fresh_grid h h1) (map snd c) \<and>
        (distinct (map snd t) \<longrightarrow> distinct (map snd c)))"

definition cloneDeep_ok :: "env \<Rightarrow> bool" where
  "cloneDeep_ok K =
     (\<forall>h. tables_at h (PIECE_SQUARE_TABLES K) \<noteq> None \<longrightarrow>
          deep_copy h (PIECE_SQUARE_TABLES K) (cloneDeep K h (PIECE_SQUARE_TABLES K)))"

section \<open>Incremental evaluator\<close>

text \<open>
  \<^verbatim>\<open>tables[piece][row][column]\<close>. Reading a property of \<^verbatim>\<open>undefined\<close> raises a
  TypeError, and a result that is no number would turn the score into NaN; both are
  outside the integer scores modelled here and give \<open>None\<close>.
\<close>

definition index3 :: "heap \<Rightarrow> PieceSquareTables option \<Rightarrow> PieceType \<Rightarrow> PieceChessPosition \<Rightarrow> int option" where
  "index3 h tables p pos =
     (case tables of
        None \<Rightarrow> None
      | Some t \<Rightarrow>
          (case map_of t p of
             Some (ArrV a) \<Rightarrow>
               if a < length h \<and> row pos < length (h ! a) then
                 (case h ! a ! row pos of
                    ArrV r \<Rightarrow>
                      if r < length h \<and> column pos < length (h ! r)
                      then num_of (h ! r ! column pos) else None
                  | NumV i \<Rightarrow> None)
               else None
           | Some (NumV i) \<Rightarrow> None
           | None \<Rightarrow> None))"

definition getOpponentValueFromSquareTable ::
    "heap \<Rightarrow> 'e ChessAiManager \<Rightarrow> PieceType \<Rightarrow> PieceChessPosition \<Rightarrow> int option" where
  "getOpponentValueFromSquareTable h this p chessPosition =
     index3 h (opponentSquareTables this) p chessPosition"

definition getAiValueFromSquareTable ::
    "heap \<Rightarrow> 'e ChessAiManager \<Rightarrow> PieceType \<Rightarrow> PieceChessPosition \<Rightarrow> int option" where
  "getAiValueFromSquareTable h this p chessPosition =
     index3 h (aiSquareTables this) p chessPosition"

text \<open>
  \<^verbatim>\<open>evaluateBoard\<close>, statement by statement: the \<^verbatim>\<open>if (captured)\<close> block first, then
  the \<^verbatim>\<open>if (move.flags === "p") ... else ...\<close> block on its result.
  \<^verbatim>\<open>moveColor === this.color\<close> is false while \<^verbatim>\<open>this.color\<close> is undefined.
\<close>

definition evaluateBoard :: "env \<Rightarrow> heap \<Rightarrow> 'e ChessAiManager \<Rightarrow> Move \<Rightarrow> number \<Rightarrow> number option" where
  "evaluateBoard K h this mv prevSum0 =
     (let fromPos = getMatrixPosition K (mv_from mv);
          toPos = getMatrixPosition K (mv_to mv);
          moveColor = mv_color mv;
          pc = mv_piece mv
      in do {
        newSum1 \<leftarrow>
          (case mv_captured mv of
             None \<Rightarrow> Some prevSum0
           | Some cap \<Rightarrow>
               if Some moveColor = color this then do {
                 v \<leftarrow> getAiValueFromSquareTable h this cap toPos;
                 Some (num_add prevSum0 (PIECE_WEIGHTS K cap + v))
               } else do {
                 v \<leftarrow> getOpponentValueFromSquareTable h this cap toPos;
                 Some (num_sub prevSum0 (PIECE_WEIGHTS K cap + v))
               });
        if mv_flags mv = ''p'' then
          (let promoted = Queen in
           if Some moveColor = color this then do {
             v1 \<leftarrow> getAiValueFromSquareTable h this pc fromPos;
             v2 \<leftarrow> getAiValueFromSquareTable h this promoted fromPos;
             Some (num_add (num_sub newSum1 (PIECE_WEIGHTS K pc + v1)) (PIECE_WEIGHTS K promoted + v2))
           } else do {
             v1 \<leftarrow> getOpponentValueFromSquareTable h this pc fromPos;
             v2 \<leftarrow> getOpponentValueFromSquareTable h this pc toPos;
             Some (num_sub (num_add newSum1 (PIECE_WEIGHTS K pc + v1)) (PIECE_WEIGHTS K promoted + v2))
           })
        else
          (if Some moveColor = color this then do {
             v1 \<leftarrow> getAiValueFromSquareTable h this pc fromPos;
             v2 \<leftarrow> getAiValueFromSquareTable h this pc toPos;
             Some (num_add (num_sub newSum1 v1) v2)
           } else do {
             v1 \<leftarrow> getAiValueFromSquareTable h this pc fromPos;
             v2 \<leftarrow> getAiValueFromSquareTable h this pc toPos;
             Some (num_sub (num_add newSum1 v1) v2)
           })
      })"

section \<open>Search\<close>

text \<open>
  \<^verbatim>\<open>minimax\<close> and its \<^verbatim>\<open>for\<close> loop over the move list read at entry. The manager is
  passed and returned, since \<^verbatim>\<open>move\<close> and \<^verbatim>\<open>undo\<close> change its engine. The depth is
  a natural number (the one caller passes 3). A \<^verbatim>\<open>null\<close> from \<^verbatim>\<open>chessEngine.move\<close>
  makes \<^verbatim>\<open>evaluateBoard\<close> raise a TypeError, and an exception leaves the loop without
  the \<^verbatim>\<open>undo\<close>. \<^verbatim>\<open>bestMove\<close> is \<open>None\<close> while it is unassigned; the parameter
  \<^verbatim>\<open>sum\<close> is written \<open>sum0\<close>.
\<close>

definition loop_exit :: "bool \<Rightarrow> Move option \<Rightarrow> number \<Rightarrow> number \<Rightarrow> 'e ChessAiManager
    \<Rightarrow> ((Move option \<times> number) \<times> 'e ChessAiManager) option" where
  "loop_exit isMaximizingPlayer bestMove maxVal minVal this =
     (if isMaximizingPlayer then Some ((bestMove, maxVal), this)
      else Some ((bestMove, minVal), this))"

fun minimax :: "env \<Rightarrow> 'e ChessInstance \<Rightarrow> heap \<Rightarrow> nat \<Rightarrow> number \<Rightarrow> bool \<Rightarrow> number \<Rightarrow> number
      \<Rightarrow> 'e ChessAiManager \<Rightarrow> ((Move option \<times> number) \<times> 'e ChessAiManager) option"
  and minimax_for :: "env \<Rightarrow> 'e ChessInstance \<Rightarrow> heap \<Rightarrow> nat \<Rightarrow> number \<Rightarrow> bool \<Rightarrow> number \<Rightarrow> number
      \<Rightarrow> number \<Rightarrow> number \<Rightarrow> Move option \<Rightarrow> string list
      \<Rightarrow> 'e ChessAiManager \<Rightarrow> ((Move option \<times> number) \<times> 'e ChessAiManager) option"
where
  "minimax K E h 0 sum0 isMaximizingPlayer alpha beta this = Some ((None, sum0), this)"
| "minimax K E h (Suc d) sum0 isMaximizingPlayer alpha beta this =
     (if moves E (chessEngine this) = [] then Some ((None, sum0), this)
      else minimax_for K E h d sum0 isMaximizingPlayer alpha beta NegInfinity Infinity None
             (moves E (chessEngine this)) this)"
| "minimax_for K E h d sum0 isMaximizingPlayer alpha beta maxVal minVal bestMove [] this =
     loop_exit isMaximizingPlayer bestMove maxVal minVal this"
| "minimax_for K E h d sum0 isMaximizingPlayer alpha beta maxVal minVal bestMove (moveNotation # rest) this =
     (case move E (chessEngine this) (San moveNotation) of
        (None, e1) \<Rightarrow> None
      | (Some currentMove, e1) \<Rightarrow>
          (case evaluateBoard K h (this\<lparr>chessEngine := e1\<rparr>) currentMove sum0 of
             None \<Rightarrow> None
           | Some newSum \<Rightarrow>
               (case minimax K E h d newSum (\<not> isMaximizingPlayer) alpha beta (this\<lparr>chessEngine := e1\<rparr>) of
                  None \<Rightarrow> None
                | Some ((uu, childValue), this2) \<Rightarrow>
                    (let this3 = this2\<lparr>chessEngine := undo E (chessEngine this2)\<rparr> in
                     if isMaximizingPlayer then
                       (let maxVal' = (if childValue > maxVal then childValue else maxVal);
                            bestMove' = (if childValue > maxVal then Some currentMove else bestMove);
                            alpha' = max alpha childValue
                        in if beta \<le> alpha'
                           then loop_exit isMaximizingPlayer bestMove' maxVal' minVal this3
                           else minimax_for K E h d sum0 isMaximizingPlayer alpha' beta maxVal' minVal
                                  bestMove' rest this3)
                     else
                       (let minVal' = (if childValue < minVal then childValue else minVal);
                            bestMove' = (if childValue < minVal then Some currentMove else bestMove);
                            beta' = min childValue beta
                        in if beta' \<le> alpha
                           then loop_exit isMaximizingPlayer bestMove' maxVal minVal' this3
                           else minimax_for K E h d sum0 isMaximizingPlayer alpha beta' maxVal minVal'
                                  bestMove' rest this3)))))"

text \<open>
  The children that the loop of one node looks at, in the order of the move list: for each
  the notation, the move that \<^verbatim>\<open>chessEngine.move\<close> returned for it and the \<^verbatim>\<open>childValue\<close>
  of the recursive call. The statements are those of the loop (the move, the
  evaluation, the recursive call with the bounds as they stand, the \<^verbatim>\<open>undo\<close>, the update
  of \<^verbatim>\<open>alpha\<close> or \<^verbatim>\<open>beta\<close> and the \<^verbatim>\<open>break\<close>); the child at which the loop breaks is the
  last one listed.
\<close>

fun visited :: "env \<Rightarrow> 'e ChessInstance \<Rightarrow> heap \<Rightarrow> nat \<Rightarrow> number \<Rightarrow> bool \<Rightarrow> number \<Rightarrow> number
      \<Rightarrow> string list \<Rightarrow> 'e ChessAiManager \<Rightarrow> (string \<times> Move \<times> number) list option" where
  "visited K E h d sum0 isMaximizingPlayer alpha beta [] this = Some []"
| "visited K E h d sum0 isMaximizingPlayer alpha beta (moveNotation # rest) this =
     (case move E (chessEngine this) (San moveNotation) of
        (None, e1) \<Rightarrow> None
      | (Some currentMove, e1) \<Rightarrow>
          (case evaluateBoard K h (this\<lparr>chessEngine := e1\<rparr>) currentMove sum0 of
             None \<Rightarrow> None
           | Some newSum \<Rightarrow>
               (case minimax K E h d newSum (\<not> isMaximizingPlayer) alpha beta (this\<lparr>chessEngine := e1\<rparr>) of
                  None \<Rightarrow> None
                | Some ((uu, childValue), this2) \<Rightarrow>
                    (let this3 = this2\<lparr>chessEngine := undo E (chessEngine this2)\<rparr>;
                         alpha' = (if isMaximizingPlayer then max alpha childValue else alpha);
                         beta' = (if isMaximizingPlayer then beta else min childValue beta)
                     in if beta' \<le> alpha' then Some [(moveNotation, currentMove, childValue)]
                        else map_option ((#) (moveNotation, currentMove, childValue))
                               (visited K E h d sum0 isMaximizingPlayer alpha' beta' rest this3)))))"

text \<open>
  Plain minimax, as the specification words it: the same traversal of the same tree with
  the same tie-break, without bounds and without the pruning \<^verbatim>\<open>break\<close>.
\<close>

fun plain_minimax :: "env \<Rightarrow> 'e ChessInstance \<Rightarrow> heap \<Rightarrow> nat \<Rightarrow> number \<Rightarrow> bool
      \<Rightarrow> 'e ChessAiManager \<Rightarrow> ((Move option \<times> number) \<times> 'e ChessAiManager) option"
  and plain_minimax_for :: "env \<Rightarrow> 'e ChessInstance \<Rightarrow> heap \<Rightarrow> nat \<Rightarrow> number \<Rightarrow> bool
      \<Rightarrow> number \<Rightarrow> number \<Rightarrow> Move option \<Rightarrow> string list
      \<Rightarrow> 'e ChessAiManager \<Rightarrow> ((Move option \<times> number) \<times> 'e ChessAiManager) option"
where
  "plain_minimax K E h 0 sum0 isMaximizingPlayer this = Some ((None, sum0), this)"
| "plain_minimax K E h (Suc d) sum0 isMaximizingPlayer this =
     (if moves E (chessEngine this) = [] then Some ((None, sum0), this)
      else plain_minimax_for K E h d sum0 isMaximizingPlayer NegInfinity Infinity None
             (moves E (chessEngine this)) this)"
| "plain_minimax_for K E h d sum0 isMaximizingPlayer maxVal minVal bestMove [] this =
     loop_exit isMaximizingPlayer bestMove maxVal minVal this"
| "plain_minimax_for K E h d sum0 isMaximizingPlayer maxVal minVal bestMove (moveNotation # rest) this =
     (case move E (chessEngine this) (San moveNotation) of
        (None, e1) \<Rightarrow> None
      | (Some currentMove, e1) \<Rightarrow>
          (case evaluateBoard K h (this\<lparr>chessEngine := e1\<rparr>) currentMove sum0 of
             None \<Rightarrow> None
           | Some newSum \<Rightarrow>
               (case plain_minimax K E h d newSum (\<not> isMaximizingPlayer) (this\<lparr>chessEngine := e1\<rparr>) of
                  None \<Rightarrow> None
                | Some ((uu, childValue), this2) \<Rightarrow>
                    (let this3 = this2\<lparr>chessEngine := undo E (chessEngine this2)\<rparr> in
                     if isMaximizingPlayer then
                       plain_minimax_for K E h d sum0 isMaximizingPlayer
                         (if childValue > maxVal then childValue else maxVal) minVal
                         (if childValue > maxVal then Some currentMove else bestMove) rest this3
                     else
                       plain_minimax_for K E h d sum0 isMaximizingPlayer
                         maxVal (if childValue < minVal then childValue else minVal)
                         (if childValue < minVal then Some currentMove else bestMove) rest this3))))"

section \<open>Session operations\<close>

definition updateBoardWithPlayerMove :: "env \<Rightarrow> 'e ChessInstance \<Rightarrow> heap \<Rightarrow> 'e ChessAiManager \<Rightarrow> Move
    \<Rightarrow> 'e ChessAiManager option" where
  "updateBoardWithPlayerMove K E h this mv =
     (let this1 = this\<lparr>chessEngine := snd (move E (chessEngine this) (Obj mv))\<rparr>
      in case evaluateBoard K h this1 mv (prevSum this1) of
           None \<Rightarrow> None
         | Some s \<Rightarrow> Some (this1\<lparr>prevSum := s\<rparr>))"

definition calcAiMove :: "env \<Rightarrow> 'e ChessInstance \<Rightarrow> heap \<Rightarrow> 'e ChessAiManager
    \<Rightarrow> (Move option \<times> 'e ChessAiManager) option" where
  "calcAiMove K E h this =
     (case minimax K E h 3 (prevSum this) True NegInfinity Infinity this of
        None \<Rightarrow> None
      | Some ((mv, sum0), this1) \<Rightarrow>
          (let this2 = this1\<lparr>prevSum := sum0\<rparr>;
               arg = (case mv of None \<Rightarrow> Null | Some m \<Rightarrow> Obj m);
               this3 = this2\<lparr>chessEngine := snd (move E (chessEngine this2) arg)\<rparr>
           in Some (mv, this3)))"

section \<open>A sample environment\<close>

text \<open>
  A concrete table set, clone function, coordinate helper and rules engine, on which the
  theorems below are instantiated. The clone function reads the grids of a table set and
  writes them to new cells at the end of the heap.
\<close>

definition sample_tables :: "(PieceType \<times> int list list) list" where
  "sample_tables =
     [(Pawn,
        [[100, 100, 100, 100, 105, 100, 100, 100],
         [78, 83, 86, 73, 102, 82, 85, 90],
         [7, 29, 21, 44, 40, 31, 44, 7],
         [-17, 16, -2, 15, 14, 0, 15, -13],
         [-26, 3, 10, 9, 6, 1, 0, -23],
         [-22, 9, 5, -11, -10, -2, 3, -19],
         [-31, 8, -7, -37, -36, -14, 3, -31],
         [0, 0, 0, 0, 0, 0, 0, 0]]),
      (Knight,
        [[-66, -53, -75, -75, -10, -55, -58, -70],
         [-3, -6, 100, -36, 4, 62, -4, -14],
         [10, 67, 1, 74, 73, 27, 62, -2],
         [24, 24, 45, 37, 33, 41, 25, 17],
         [-1, 5, 31, 21, 22, 35, 2, 0],
         [-18, 10, 14, 22, 18, 15, 11, -14],
         [-23, -15, 2, 0, 2, 0, -23, -20],
         [-74, -23, -26, -24, -19, -35, -22, -69]]),
      (Bishop,
        [[-59, -78, -82, -76, -23, -107, -37, -50],
         [-11, 20, 35, -42, -39, 31, 2, -22],
         [-9, 39, -32, 41, 52, -10, 28, -14],
         [25, 17, 20, 34, 26, 25, 15, 10],
         [13, 10, 17, 23, 17, 16, 0, 7],
         [14, 25, 24, 15, 8, 25, 20, 15],
         [19, 20, 11, 6, 7, 6, 20, 16],
         [-7, 2, -15, -12, -14, -15, -10, -10]]),
      (Rook,
        [[35, 29, 33, 4, 37, 33, 56, 50],
         [55, 29, 56, 67, 55, 62, 34, 60],
         [19, 35, 28, 33, 45, 27, 25, 15],
         [0, 5, 16, 13, 18, -4, -9, -6],
         [-28, -35, -16, -21, -13, -29, -46, -30],
         [-42, -28, -42, -25, -25, -35, -26, -46],
         [-53, -38, -31, -26, -29, -43, -44, -53],
         [-30, -24, -18, 5, -2, -18, -31, -32]]),
      (Queen,
        [[6, 1, -8, -104, 69, 24, 88, 26],
         [14, 32, 60, -10, 20, 76, 57, 24],
         [-2, 43, 32, 60, 72, 63, 43, 2],
         [1, -16, 22, 17, 25, 20, -13, -6],
         [-14, -15, -2, -5, -1, -10, -20, -22],
         [-30, -6, -13, -11, -16, -11, -16, -27],
         [-36, -18, 0, -19, -15, -15, -21, -38],
         [-39, -30, -31, -13, -31, -36, -34, -42]]),
      (King,
        [[4, 54, 47, -99, -99, 60, 83, -62],
         [-32, 10, 55, 56, 56, 55, 10, 3],
         [-62, 12, -57, 44, -67, 28, 37, -31],
         [-55, 50, 11, -4, -19, 13, 0, -49],
         [-55, -43, -52, -28, -51, -47, -8, -50],
         [-47, -42, -43, -79, -64, -32, -29, -32],
         [-4, 3, -14, -50, -57, -18, 13, 4],
         [17, 30, -3, -14, 6, -1, 40, 18]])]"

fun write_rows :: "heap \<Rightarrow> int list list \<Rightarrow> val list \<times> heap" where
  "write_rows h [] = ([], h)"
| "write_rows h (r # rs) =
     (case write_rows (h @ [map NumV r]) rs of (vs, h') \<Rightarrow> (ArrV (length h) # vs, h'))"

definition write_grid :: "heap \<Rightarrow> int list list \<Rightarrow> val \<times> heap" where
  "write_grid h g = (case write_rows h g of (vs, h1) \<Rightarrow> (ArrV (length h1), h1 @ [vs]))"

fun write_tables :: "heap \<Rightarrow> (PieceType \<times> int list list) list \<Rightarrow> PieceSquareTables \<times> heap" where
  "write_tables h [] = ([], h)"
| "write_tables h ((p, g) # T) =
     (case write_grid h g of (v, h1) \<Rightarrow>
        (case write_tables h1 T of (c, h2) \<Rightarrow> ((p, v) # c, h2)))"

definition sample_cloneDeep :: "heap \<Rightarrow> PieceSquareTables \<Rightarrow> PieceSquareTables \<times> heap" where
  "sample_cloneDeep h t = (case tables_at h t of None \<Rightarrow> (t, h) | Some T \<Rightarrow> write_tables h T)"

definition sample_PIECE_SQUARE_TABLES :: PieceSquareTables where
  "sample_PIECE_SQUARE_TABLES = fst (write_tables [] sample_tables)"

definition sample_heap :: heap where
  "sample_heap = snd (write_tables [] sample_tables)"

fun sample_PIECE_WEIGHTS :: "PieceType \<Rightarrow> int" where
  "sample_PIECE_WEIGHTS Pawn = 100"
| "sample_PIECE_WEIGHTS Knight = 280"
| "sample_PIECE_WEIGHTS Bishop = 320"
| "sample_PIECE_WEIGHTS Rook = 479"
| "sample_PIECE_WEIGHTS Queen = 929"
| "sample_PIECE_WEIGHTS King = 60000"

text \<open>Row 0 is rank 8 and column 0 is file a.\<close>

fun sample_getMatrixPosition :: "string \<Rightarrow> PieceChessPosition" where
  "sample_getMatrixPosition [f, r] =
     \<lparr>row = (56 - of_char r) mod 8, column = (of_char f - 97) mod 8\<rparr>"
| "sample_getMatrixPosition s = \<lparr>row = 0, column = 0\<rparr>"

definition sample_env :: env where
  "sample_env =
     \<lparr>PIECE_SQUARE_TABLES = sample_PIECE_SQUARE_TABLES, PIECE_WEIGHTS = sample_PIECE_WEIGHTS,
      getMatrixPosition = sample_getMatrixPosition, cloneDeep = sample_cloneDeep\<rparr>"

text \<open>
  A small rules engine: its state is the list of SAN strings played, the latest first;
  \<^verbatim>\<open>undo\<close> drops the latest. White opens with e4 or d4, Black answers d5 or e5, White
  then has two moves (a capture after e4 d5), and the game stops there.
\<close>

definition sample_moves :: "string list \<Rightarrow> string list" where
  "sample_moves e =
     (if length e = 0 then [''e4'', ''d4'']
      else if length e = 1 then [''d5'', ''e5'']
      else if e = [''d5'', ''e4''] then [''exd5'', ''e5'']
      else if length e = 2 then [''Nf3'', ''Nc3'']
      else [])"

definition mk_move :: "PieceColor \<Rightarrow> string \<Rightarrow> string \<Rightarrow> string \<Rightarrow> PieceType \<Rightarrow> PieceType option
    \<Rightarrow> string \<Rightarrow> Move" where
  "mk_move c f t fl p cap s =
     \<lparr>mv_color = c, mv_from = f, mv_to = t, mv_flags = fl, mv_piece = p, mv_captured = cap,
      mv_promotion = None, mv_san = s\<rparr>"

definition sample_move_of :: "string list \<Rightarrow> string \<Rightarrow> Move" where
  "sample_move_of e s =
     (if s = ''e4'' then mk_move White ''e2'' ''e4'' ''b'' Pawn None s
      else if s = ''d4'' then mk_move White ''d2'' ''d4'' ''b'' Pawn None s
      else if s = ''d5'' then mk_move Black ''d7'' ''d5'' ''b'' Pawn None s
      else if s = ''e5'' \<and> length e = 1 then mk_move Black ''e7'' ''e5'' ''b'' Pawn None s
      else if s = ''exd5'' then mk_move White ''e4'' ''d5'' ''c'' Pawn (Some Pawn) s
      else if s = ''e5'' then mk_move White ''e4'' ''e5'' ''n'' Pawn None s
      else if s = ''Nf3'' then mk_move White ''g1'' ''f3'' ''n'' Knight None s
      else mk_move White ''b1'' ''c3'' ''n'' Knight None s)"

fun sample_move :: "string list \<Rightarrow> move_arg \<Rightarrow> Move option \<times> string list" where
  "sample_move e (San s) =
     (if s \<in> set (sample_moves e) then (Some (sample_move_of e s), s # e) else (None, e))"
| "sample_move e (Obj m) =
     (if mv_san m \<in> set (sample_moves e) then (Some (sample_move_of e (mv_san m)), mv_san m # e)
      else (None, e))"
| "sample_move e Null = (None, e)"

definition sample_engine :: "string list ChessInstance" where
  "sample_engine =
     \<lparr>new_Chess = [], moves = sample_moves, move = sample_move, undo = tl,
      load = (\<lambda>e fen. [])\<rparr>"

section \<open>Notions used in the statements\<close>

text \<open>A table set with the row order of every grid reversed; the rows themselves are kept.\<close>

definition reversed_rows :: "(PieceType \<times> int list list) list \<Rightarrow> (PieceType \<times> int list list) list" where
  "reversed_rows T = map (\<lambda>(p, g). (p, rev g)) T"

definition start_fen :: string where
  "start_fen = ''rnbqkbnr/pppppppp/8/8/8/8/PPPPPPPP/RNBQKBNR w KQkq - 0 1''"

text \<open>
  Two sample sessions, initialised by \<^verbatim>\<open>init\<close> on the sample environment with White and
  with Black, and some moves to evaluate: a quiet move by Black, a capture and an opening
  move by White, and a promotion to a knight by each side. chess.js writes the flags of a
  move as one letter per flag bit, so a promotion carries \<^verbatim>\<open>np\<close> (\<^verbatim>\<open>cp\<close> when it captures).
\<close>

definition white_init :: "string list ChessAiManager \<times> heap" where
  "white_init =
     the (init sample_env sample_engine sample_heap (constructor sample_engine) White start_fen)"

definition white_manager :: "string list ChessAiManager" where
  "white_manager = fst white_init"

definition white_heap :: heap where
  "white_heap = snd white_init"

definition black_init :: "string list ChessAiManager \<times> heap" where
  "black_init =
     the (init sample_env sample_engine sample_heap (constructor sample_engine) Black start_fen)"

definition black_manager :: "string list ChessAiManager" where
  "black_manager = fst black_init"

definition black_heap :: heap where
  "black_heap = snd black_init"

definition black_d5 :: Move where
  "black_d5 = mk_move Black ''d7'' ''d5'' ''b'' Pawn None ''d5''"

definition white_exd5 :: Move where
  "white_exd5 = mk_move White ''e4'' ''d5'' ''c'' Pawn (Some Pawn) ''exd5''"

definition white_e4 :: Move where
  "white_e4 = mk_move White ''e2'' ''e4'' ''b'' Pawn None ''e4''"

definition white_e8_knight :: Move where
  "white_e8_knight = (mk_move White ''e7'' ''e8'' ''np'' Pawn None ''e8=N'')\<lparr>mv_promotion := Some Knight\<rparr>"

definition black_e1_knight :: Move where
  "black_e1_knight = (mk_move Black ''e2'' ''e1'' ''np'' Pawn None ''e1=N'')\<lparr>mv_promotion := Some Knight\<rparr>"

text \<open>
  A session that recorded a move and is initialised again: the Black session after
  White's e4. And a White session whose engine has no legal move left.
\<close>

definition black_after_e4 :: "string list ChessAiManager" where
  "black_after_e4 =
     the (updateBoardWithPlayerMove sample_env sample_engine black_heap black_manager white_e4)"

definition black_reinit :: "(string list ChessAiManager \<times> heap) option" where
  "black_reinit = init sample_env sample_engine black_heap black_after_e4 Black start_fen"

definition white_finished :: "string list ChessAiManager" where
  "white_finished = white_manager\<lparr>chessEngine := [''Nf3'', ''e5'', ''e4''], prevSum := Num 42\<rparr>"

text \<open>
  A White session after d4 e5: the engine lists Nf3 and Nc3, and both raise the score
  by 37 on the sample tables.
\<close>

definition white_tie :: "string list ChessAiManager" where
  "white_tie = white_manager\<lparr>chessEngine := [''e5'', ''d4'']\<rparr>"

definition white_Nf3 :: Move where
  "white_Nf3 = mk_move White ''g1'' ''f3'' ''n'' Knight None ''Nf3''"

definition white_Nc3 :: Move where
  "white_Nc3 = mk_move White ''b1'' ''c3'' ''n'' Knight None ''Nc3''"

section \<open>The game tree, for the comparison of the two searches\<close>

text \<open>
  What the rules engine is relied on for during a search: every notation it lists is
  played by \<^verbatim>\<open>move\<close>, and \<^verbatim>\<open>undo\<close> then restores the state \<^verbatim>\<open>move\<close> started from.
  The frame property of the search needs only the second half.
\<close>

definition undo_inverts_move :: "'e ChessInstance \<Rightarrow> bool" where
  "undo_inverts_move E =
     (\<forall>e n cm e1. n \<in> set (moves E e) \<longrightarrow> move E e (San n) = (Some cm, e1) \<longrightarrow> undo E e1 = e)"

definition engine_ok :: "'e ChessInstance \<Rightarrow> bool" where
  "engine_ok E =
     (\<forall>e n. n \<in> set (moves E e) \<longrightarrow> (\<exists>cm e1. move E e (San n) = (Some cm, e1) \<and> undo E e1 = e))"

text \<open>The evaluator returns a score on every move: no lookup of the session fails.\<close>

definition evaluates :: "env \<Rightarrow> heap \<Rightarrow> 'e ChessAiManager \<Rightarrow> bool" where
  "evaluates K h this = (\<forall>mv s. evaluateBoard K h this mv s \<noteq> None)"

text \<open>
  The tree a search of depth \<open>d\<close> walks: a node carries the score accumulated on the
  path to it, and one child per listed move, with the \<^verbatim>\<open>Move\<close> the engine returns for it.
\<close>

datatype gtree = Node number "(Move \<times> gtree) list"

fun tree_of :: "env \<Rightarrow> 'e ChessInstance \<Rightarrow> heap \<Rightarrow> nat \<Rightarrow> number \<Rightarrow> 'e ChessAiManager \<Rightarrow> gtree" where
  "tree_of K E h 0 sum0 this = Node sum0 []"
| "tree_of K E h (Suc d) sum0 this =
     Node sum0
       (concat (map
          (\<lambda>n. case move E (chessEngine this) (San n) of
                 (None, e1) \<Rightarrow> []
               | (Some cm, e1) \<Rightarrow>
                   (case evaluateBoard K h (this\<lparr>chessEngine := e1\<rparr>) cm sum0 of
                      None \<Rightarrow> []
                    | Some newSum \<Rightarrow> [(cm, tree_of K E h d newSum (this\<lparr>chessEngine := e1\<rparr>))]))
          (moves E (chessEngine this))))"

text \<open>Plain minimax and the pruning search on such a tree, with the bookkeeping of the loop.\<close>

fun plain_tree :: "bool \<Rightarrow> gtree \<Rightarrow> Move option \<times> number"
  and plain_children :: "bool \<Rightarrow> number \<Rightarrow> number \<Rightarrow> Move option \<Rightarrow> (Move \<times> gtree) list
      \<Rightarrow> Move option \<times> number"
where
  "plain_tree mx (Node s ts) =
     (if ts = [] then (None, s) else plain_children mx NegInfinity Infinity None ts)"
| "plain_children mx maxVal minVal bestMove [] = (bestMove, if mx then maxVal else minVal)"
| "plain_children mx maxVal minVal bestMove ((cm, t) # ts) =
     (let childValue = snd (plain_tree (\<not> mx) t) in
      if mx then
        plain_children mx (if childValue > maxVal then childValue else maxVal) minVal
          (if childValue > maxVal then Some cm else bestMove) ts
      else
        plain_children mx maxVal (if childValue < minVal then childValue else minVal)
          (if childValue < minVal then Some cm else bestMove) ts)"

fun ab_tree :: "bool \<Rightarrow> number \<Rightarrow> number \<Rightarrow> gtree \<Rightarrow> Move option \<times> number"
  and ab_children :: "bool \<Rightarrow> number \<Rightarrow> number \<Rightarrow> number \<Rightarrow> number \<Rightarrow> Move option
      \<Rightarrow> (Move \<times> gtree) list \<Rightarrow> Move option \<times> number"
where
  "ab_tree mx alpha beta (Node s ts) =
     (if ts = [] then (None, s) else ab_children mx alpha beta NegInfinity Infinity None ts)"
| "ab_children mx alpha beta maxVal minVal bestMove [] = (bestMove, if mx then maxVal else minVal)"
| "ab_children mx alpha beta maxVal minVal bestMove ((cm, t) # ts) =
     (let childValue = snd (ab_tree (\<not> mx) alpha beta t) in
      if mx then
        (let maxVal' = (if childValue > maxVal then childValue else maxVal);
             bestMove' = (if childValue > maxVal then Some cm else bestMove);
             alpha' = max alpha childValue
         in if beta \<le> alpha' then (bestMove', maxVal')
            else ab_children mx alpha' beta maxVal' minVal bestMove' ts)
      else
        (let minVal' = (if childValue < minVal then childValue else minVal);
             bestMove' = (if childValue < minVal then Some cm else bestMove);
             beta' = min childValue beta
         in if beta' \<le> alpha then (bestMove', minVal')
            else ab_children mx alpha beta' maxVal minVal' bestMove' ts))"

text \<open>
  The value \<open>v\<close> a search with the window from \<open>a\<close> to \<open>b\<close> may return for a node of
  true value \<open>t\<close>: exact inside the window, a bound on the side it fails on outside.
\<close>

definition bounded :: "number \<Rightarrow> number \<Rightarrow> number \<Rightarrow> number \<Rightarrow> bool" where
  "bounded a b t v = (min t b \<le> v \<and> v \<le> max t a)"

text \<open>The children of a node of \<open>tree_of\<close>, one move at a time.\<close>

definition child_of :: "env \<Rightarrow> 'e ChessInstance \<Rightarrow> heap \<Rightarrow> nat \<Rightarrow> number \<Rightarrow> 'e ChessAiManager
    \<Rightarrow> string \<Rightarrow> (Move \<times> gtree) list" where
  "child_of K E h d sum0 this n =
     (case move E (chessEngine this) (San n) of
        (None, e1) \<Rightarrow> []
      | (Some cm, e1) \<Rightarrow>
          (case evaluateBoard K h (this\<lparr>chessEngine := e1\<rparr>) cm sum0 of
             None \<Rightarrow> []
           | Some newSum \<Rightarrow> [(cm, tree_of K E h d newSum (this\<lparr>chessEngine := e1\<rparr>))]))"

section \<open>Reading tables through the heap\<close>

lemma those_map_Some_iff: "those (map f xs) = Some ys \<longleftrightarrow> map f xs = map Some ys"
proof (induction xs arbitrary: ys)
  case Nil show ?case by auto
next
  case (Cons x xs)
  show ?case
  proof (cases "f x")
    case None then show ?thesis by (cases ys) auto
  next
    case (Some y)
    then show ?thesis using Cons by (cases ys) (auto split: option.splits)
  qed
qed

lemma those_map_cong: "(\<And>x. x \<in> set xs \<Longrightarrow> f x = g x) \<Longrightarrow> those (map f xs) = those (map g xs)"
  by (metis map_cong)

lemma row_at_Some: "row_at h x = Some r \<Longrightarrow> \<exists>k. x = ArrV k \<and> k < length h \<and> map num_of (h ! k) = map Some r"
  by (cases x) (auto simp: those_map_Some_iff split: if_splits)

lemma grid_at_Some: "grid_at h v = Some g \<Longrightarrow> \<exists>a. v = ArrV a \<and> a < length h \<and> map (row_at h) (h ! a) = map Some g"
  by (cases v) (auto simp: those_map_Some_iff split: if_splits)

lemma row_at_reverse_cell:
  assumes g: "grid_at h (ArrV a) = Some g" and r: "row_at h x = Some r"
  shows "row_at (h[a := rev (h ! a)]) x = Some r"
proof -
  obtain k where k: "x = ArrV k" "k < length h" "map num_of (h ! k) = map Some r"
    using row_at_Some[OF r] by blast
  from grid_at_Some[OF g] have a: "a < length h" "map (row_at h) (h ! a) = map Some g" by auto
  show ?thesis
  proof (cases "k = a")
    case False
    then show ?thesis using r k by simp
  next
    case True
    have "h ! a = []"
    proof (cases "h ! a")
      case Nil then show ?thesis .
    next
      case (Cons y ys)
      then have "num_of y \<noteq> None" "row_at h y \<noteq> None" using k(3) a(2) True by auto
      then show ?thesis by (cases y) auto
    qed
    then show ?thesis using r k True by simp
  qed
qed

lemma grid_at_reverse_same:
  assumes g: "grid_at h (ArrV a) = Some g"
  shows "grid_at (h[a := rev (h ! a)]) (ArrV a) = Some (rev g)"
proof -
  let ?h = "h[a := rev (h ! a)]"
  from grid_at_Some[OF g] have a: "a < length h" "map (row_at h) (h ! a) = map Some g" by auto
  have "\<And>x. x \<in> set (h ! a) \<Longrightarrow> row_at ?h x = row_at h x"
  proof -
    fix x assume x: "x \<in> set (h ! a)"
    then have "row_at h x \<in> set (map Some g)" using a(2) by (metis image_eqI list.set_map)
    then obtain r where "row_at h x = Some r" by auto
    then show "row_at ?h x = row_at h x" using row_at_reverse_cell[OF g] by simp
  qed
  then have "map (row_at ?h) (rev (h ! a)) = map (row_at h) (rev (h ! a))" by simp
  also have "\<dots> = rev (map (row_at h) (h ! a))" by (simp add: rev_map)
  also have "\<dots> = map Some (rev g)" unfolding a(2) by (simp add: rev_map)
  finally show ?thesis using a(1) by (simp add: those_map_Some_iff)
qed

lemma grid_at_reverse_other:
  assumes g: "grid_at h (ArrV a) = Some g" and v: "grid_at h v = Some g2" and ne: "v \<noteq> ArrV a"
  shows "grid_at (h[a := rev (h ! a)]) v = Some g2"
proof -
  let ?h = "h[a := rev (h ! a)]"
  obtain k where k: "v = ArrV k" "k < length h" "map (row_at h) (h ! k) = map Some g2"
    using grid_at_Some[OF v] by blast
  have "\<And>x. x \<in> set (h ! k) \<Longrightarrow> row_at ?h x = row_at h x"
  proof -
    fix x assume x: "x \<in> set (h ! k)"
    then have "row_at h x \<in> set (map Some g2)" using k(3) by (metis image_eqI list.set_map)
    then obtain r where "row_at h x = Some r" by auto
    then show "row_at ?h x = row_at h x" using row_at_reverse_cell[OF g] by simp
  qed
  then have "map (row_at ?h) (h ! k) = map (row_at h) (h ! k)" by simp
  then have "map (row_at ?h) (h ! k) = map Some g2" using k(3) by simp
  then show ?thesis using k ne by (simp add: those_map_Some_iff)
qed

lemma reverse_each_grids:
  assumes "distinct vs" and "\<forall>v\<in>set vs. grid_at h v \<noteq> None"
  shows "\<exists>h'. reverse_each h vs = Some h' \<and> length h' = length h
           \<and> (\<forall>v g. grid_at h v = Some g \<longrightarrow> grid_at h' v = Some (if v \<in> set vs then rev g else g))
           \<and> (\<forall>a<length h. ArrV a \<notin> set vs \<longrightarrow> h' ! a = h ! a)"
  using assms
proof (induction vs arbitrary: h)
  case Nil
  then show ?case by simp
next
  case (Cons v vs)
  from Cons.prems obtain g where g: "grid_at h v = Some g" by auto
  then obtain a where a: "v = ArrV a" "a < length h" using grid_at_Some by blast
  let ?h = "h[a := rev (h ! a)]"
  have same: "grid_at ?h (ArrV a) = Some (rev g)" using grid_at_reverse_same[of h a g] g a by simp
  have other: "\<And>w g2. grid_at h w = Some g2 \<Longrightarrow> w \<noteq> ArrV a \<Longrightarrow> grid_at ?h w = Some g2"
    using grid_at_reverse_other[of h a g] g a by simp
  have "\<forall>w\<in>set vs. grid_at ?h w \<noteq> None"
  proof
    fix w assume w: "w \<in> set vs"
    then have "w \<noteq> ArrV a" using Cons.prems(1) a by auto
    moreover obtain g2 where "grid_at h w = Some g2" using Cons.prems(2) w by auto
    ultimately show "grid_at ?h w \<noteq> None" using other by simp
  qed
  moreover have "distinct vs" using Cons.prems(1) by simp
  ultimately obtain h' where h': "reverse_each ?h vs = Some h'" "length h' = length ?h"
    "\<forall>w g. grid_at ?h w = Some g \<longrightarrow> grid_at h' w = Some (if w \<in> set vs then rev g else g)"
    "\<forall>k<length ?h. ArrV k \<notin> set vs \<longrightarrow> h' ! k = ?h ! k"
    using Cons.IH[of ?h] by blast
  have notin: "ArrV a \<notin> set vs" using Cons.prems(1) a by simp
  have 1: "reverse_each h (v # vs) = Some h'" using a h'(1) by simp
  have 2: "length h' = length h" using h'(2) by simp
  have 3: "\<forall>w g2. grid_at h w = Some g2 \<longrightarrow> grid_at h' w = Some (if w \<in> set (v # vs) then rev g2 else g2)"
  proof (intro allI impI)
    fix w g2 assume w: "grid_at h w = Some g2"
    show "grid_at h' w = Some (if w \<in> set (v # vs) then rev g2 else g2)"
    proof (cases "w = ArrV a")
      case True
      then have "g2 = g" using w g a by simp
      then show ?thesis using h'(3) same True notin a by (simp del: grid_at.simps)
    next
      case False
      then have "grid_at ?h w = Some g2" using other w by simp
      then show ?thesis using h'(3) False a by (simp del: grid_at.simps)
    qed
  qed
  have 4: "\<forall>k<length h. ArrV k \<notin> set (v # vs) \<longrightarrow> h' ! k = h ! k"
    using h'(4) a by auto
  show ?case using 1 2 3 4 by blast
qed

lemma tables_at_Some_iff:
  "tables_at h t = Some T \<longleftrightarrow>
     length T = length t \<and>
     (\<forall>i<length t. fst (T ! i) = fst (t ! i) \<and> grid_at h (snd (t ! i)) = Some (snd (T ! i)))"
proof -
  let ?f = "\<lambda>(p, v). case grid_at h v of None \<Rightarrow> None | Some g \<Rightarrow> Some (p, g)"
  have el: "\<And>x y. (?f x = Some y) = (fst y = fst x \<and> grid_at h (snd x) = Some (snd y))"
    by (auto split: prod.splits option.splits)
  have "tables_at h t = Some T \<longleftrightarrow> map ?f t = map Some T"
    by (simp add: tables_at_def those_map_Some_iff)
  also have "\<dots> \<longleftrightarrow> length T = length t \<and> (\<forall>i<length t. ?f (t ! i) = Some (T ! i))"
    by (auto simp: list_eq_iff_nth_eq)
  also have "\<dots> \<longleftrightarrow> length T = length t \<and>
     (\<forall>i<length t. fst (T ! i) = fst (t ! i) \<and> grid_at h (snd (t ! i)) = Some (snd (T ! i)))"
    by (simp only: el)
  finally show ?thesis .
qed

lemma heap_extend_nth:
  assumes "take (length h) h1 = h" and "k < length h"
  shows "k < length h1" and "h1 ! k = h ! k"
proof -
  have "length (take (length h) h1) = length h" using assms(1) by simp
  then show "k < length h1" using assms(2) by simp
  have "take (length h) h1 ! k = h1 ! k" using assms(2) by simp
  then show "h1 ! k = h ! k" using assms(1) by simp
qed

lemma row_at_extend:
  assumes "take (length h) h1 = h" and "row_at h x = Some r"
  shows "row_at h1 x = Some r"
proof -
  obtain k where k: "x = ArrV k" "k < length h" using row_at_Some[OF assms(2)] by blast
  then show ?thesis using assms(2) heap_extend_nth[OF assms(1) k(2)] by simp
qed

lemma grid_at_extend:
  assumes "take (length h) h1 = h" and "grid_at h v = Some g"
  shows "grid_at h1 v = Some g"
proof -
  obtain a where a: "v = ArrV a" "a < length h" "map (row_at h) (h ! a) = map Some g"
    using grid_at_Some[OF assms(2)] by blast
  have "\<And>x. x \<in> set (h ! a) \<Longrightarrow> row_at h1 x = row_at h x"
  proof -
    fix x assume "x \<in> set (h ! a)"
    then have "row_at h x \<in> set (map Some g)" using a(3) by (metis image_eqI list.set_map)
    then obtain r where "row_at h x = Some r" by auto
    then show "row_at h1 x = row_at h x" using row_at_extend[OF assms(1)] by simp
  qed
  then have "map (row_at h1) (h ! a) = map (row_at h) (h ! a)" by simp
  then show ?thesis using a heap_extend_nth[OF assms(1) a(2)] by (simp add: those_map_Some_iff)
qed

lemma tables_at_extend:
  assumes "take (length h) h1 = h" and "tables_at h t = Some T"
  shows "tables_at h1 t = Some T"
  using assms(2) grid_at_extend[OF assms(1)] unfolding tables_at_Some_iff by blast

lemma tables_at_reverse_each:
  assumes T: "tables_at h c = Some T" and d: "distinct (map snd c)"
  shows "\<exists>h'. reverse_each h (map snd c) = Some h' \<and> length h' = length h
           \<and> tables_at h' c = Some (map (\<lambda>(p, g). (p, rev g)) T)
           \<and> (\<forall>v g. v \<notin> snd ` set c \<longrightarrow> grid_at h v = Some g \<longrightarrow> grid_at h' v = Some g)
           \<and> (\<forall>a<length h. ArrV a \<notin> snd ` set c \<longrightarrow> h' ! a = h ! a)"
proof -
  have g: "\<forall>i<length c. grid_at h (snd (c ! i)) = Some (snd (T ! i))"
    and len: "length T = length c" and keys: "\<forall>i<length c. fst (T ! i) = fst (c ! i)"
    using T unfolding tables_at_Some_iff by auto
  have "\<forall>v\<in>set (map snd c). grid_at h v \<noteq> None"
  proof
    fix v assume "v \<in> set (map snd c)"
    then obtain i where "i < length c" "v = snd (c ! i)"
      by (metis in_set_conv_nth length_map nth_map)
    then show "grid_at h v \<noteq> None" using g by simp
  qed
  from reverse_each_grids[OF d this] obtain h' where h':
    "reverse_each h (map snd c) = Some h'" "length h' = length h"
    "\<forall>v g. grid_at h v = Some g \<longrightarrow> grid_at h' v = Some (if v \<in> set (map snd c) then rev g else g)"
    "\<forall>a<length h. ArrV a \<notin> set (map snd c) \<longrightarrow> h' ! a = h ! a"
    by blast
  have "tables_at h' c = Some (map (\<lambda>(p, g). (p, rev g)) T)"
    unfolding tables_at_Some_iff
  proof (intro conjI allI impI)
    show "length (map (\<lambda>(p, g). (p, rev g)) T) = length c" using len by simp
  next
    fix i assume i: "i < length c"
    then show "fst (map (\<lambda>(p, g). (p, rev g)) T ! i) = fst (c ! i)"
      using keys len by (simp add: case_prod_beta)
  next
    fix i assume i: "i < length c"
    then have "snd (c ! i) \<in> set (map snd c)" by (metis length_map nth_map nth_mem)
    then have "grid_at h' (snd (c ! i)) = Some (rev (snd (T ! i)))"
      using h'(3) g i by simp
    then show "grid_at h' (snd (c ! i)) = Some (snd (map (\<lambda>(p, g). (p, rev g)) T ! i))"
      using i len by (simp add: case_prod_beta)
  qed
  then show ?thesis using h' by auto
qed

lemma fresh_grid_addr:
  "fresh_grid h h1 v \<Longrightarrow> \<exists>a. v = ArrV a \<and> length h \<le> a \<and> a < length h1"
  by (cases v) (auto simp: fresh_grid_def)

lemma fresh_grid_reverse_each:
  assumes "reverse_each h1 vs = Some h2" and "fresh_grid h h1 v"
  shows "fresh_grid h h2 v"
  using assms
proof (induction vs arbitrary: h1)
  case Nil
  then show ?case by simp
next
  case (Cons w vs)
  then obtain a where a: "w = ArrV a" "a < length h1"
    "reverse_each (h1[a := rev (h1 ! a)]) vs = Some h2"
    by (cases w) (auto split: if_splits)
  have "\<And>k. k < length h1 \<Longrightarrow> set (h1[a := rev (h1 ! a)] ! k) = set (h1 ! k)"
    using a(2) by (simp add: nth_list_update)
  then have "fresh_grid h (h1[a := rev (h1 ! a)]) v"
    using Cons.prems(2) by (cases v) (auto simp: fresh_grid_def list_all_iff)
  then show ?case using Cons.IH a(3) by blast
qed

lemma rows_exchanged:
  assumes "length g = 8" and "i < 8"
  shows "rev g ! i = g ! (7 - i)"
  using assms by (simp add: rev_nth)

section \<open>The sample clone function meets the contract\<close>

lemma write_rows_eq:
  "write_rows h g = (map (\<lambda>i. ArrV (length h + i)) [0..<length g], h @ map (map NumV) g)"
proof (induction g arbitrary: h)
  case Nil
  show ?case by simp
next
  case (Cons r rs)
  have "[0..<Suc (length rs)] = 0 # map Suc [0..<length rs]"
    by (simp add: upt_conv_Cons map_Suc_upt del: upt_Suc)
  then show ?case using Cons[of "h @ [map NumV r]"] by (simp del: upt_Suc)
qed

lemma write_grid_eq:
  "write_grid h g =
     (ArrV (length h + length g),
      h @ map (map NumV) g @ [map (\<lambda>i. ArrV (length h + i)) [0..<length g]])"
  by (simp add: write_grid_def write_rows_eq)

lemma those_map_num_of: "those (map num_of (map NumV r)) = Some r"
  by (simp add: those_map_Some_iff)

lemma write_grid_read:
  assumes "write_grid h g = (v, h1)"
  shows "grid_at h1 v = Some g" and "fresh_grid h h1 v" and "\<exists>ext. h1 = h @ ext"
    and "\<exists>a. v = ArrV a \<and> a < length h1"
proof -
  let ?vs = "map (\<lambda>i. ArrV (length h + i)) [0..<length g]"
  have v: "v = ArrV (length h + length g)" and h1: "h1 = h @ map (map NumV) g @ [?vs]"
    using assms by (simp_all add: write_grid_eq)
  have cell: "h1 ! (length h + length g) = ?vs"
    unfolding h1 by (simp add: nth_append)
  have rows: "\<And>i. i < length g \<Longrightarrow> row_at h1 (ArrV (length h + i)) = Some (g ! i)"
  proof -
    fix i assume i: "i < length g"
    then have "h1 ! (length h + i) = map NumV (g ! i)"
      unfolding h1 by (simp add: nth_append)
    moreover have "length h + i < length h1" using i unfolding h1 by simp
    ultimately show "row_at h1 (ArrV (length h + i)) = Some (g ! i)"
      using those_map_num_of[of "g ! i"] by (simp del: map_map)
  qed
  have "map (row_at h1) ?vs = map Some g"
    by (rule nth_equalityI) (simp_all add: rows del: row_at.simps)
  then show "grid_at h1 v = Some g"
    using cell by (simp add: v those_map_Some_iff) (simp add: h1)
  show "fresh_grid h h1 v"
    using cell by (simp add: v fresh_grid_def list_all_iff) (simp add: h1)
  show "\<exists>ext. h1 = h @ ext" using h1 by blast
  show "\<exists>a. v = ArrV a \<and> a < length h1" using v h1 by simp
qed

lemma fresh_grid_mono:
  assumes "fresh_grid h1 h2 v" and "length h \<le> length h1"
  shows "fresh_grid h h2 v"
  using assms by (cases v) (auto simp: fresh_grid_def list_all_iff split: val.splits)

lemma write_tables_read:
  assumes "write_tables h T = (c, h2)"
  shows "(\<exists>ext. h2 = h @ ext) \<and> length c = length T
       \<and> (\<forall>i<length T. fst (c ! i) = fst (T ! i) \<and> grid_at h2 (snd (c ! i)) = Some (snd (T ! i))
              \<and> fresh_grid h h2 (snd (c ! i)))
       \<and> distinct (map snd c)"
  using assms
proof (induction T arbitrary: h c h2)
  case Nil
  then show ?case by simp
next
  case (Cons pg T)
  obtain p g where pg: "pg = (p, g)" by (cases pg)
  obtain v h1 where w: "write_grid h g = (v, h1)" by (cases "write_grid h g")
  obtain c' where c': "write_tables h1 T = (c', h2)" "c = (p, v) # c'"
    using Cons.prems pg w by (auto split: prod.splits)
  note r = write_grid_read[OF w]
  from Cons.IH[OF c'(1)] have IH:
    "\<exists>ext. h2 = h1 @ ext" "length c' = length T"
    "\<forall>i<length T. fst (c' ! i) = fst (T ! i) \<and> grid_at h2 (snd (c' ! i)) = Some (snd (T ! i))
         \<and> fresh_grid h1 h2 (snd (c' ! i))"
    "distinct (map snd c')"
    by auto
  obtain e1 where e1: "h1 = h @ e1" using r(3) by blast
  obtain e2 where e2: "h2 = h1 @ e2" using IH(1) by blast
  have t12: "take (length h1) h2 = h1" using e2 by simp
  have g0: "grid_at h2 v = Some g" using grid_at_extend[OF t12 r(1)] .
  obtain a where a: "v = ArrV a" "a < length h1" using r(4) by blast
  have f0: "fresh_grid h h2 v"
    using r(2) a e2 by (auto simp: fresh_grid_def nth_append)
  have notin: "v \<notin> set (map snd c')"
  proof
    assume "v \<in> set (map snd c')"
    then obtain i where i: "i < length c'" "v = snd (c' ! i)"
      by (metis in_set_conv_nth length_map nth_map)
    then have "fresh_grid h1 h2 v" using IH(2,3) by simp
    then show False using a by (simp add: fresh_grid_def)
  qed
  have all: "\<forall>i<length (pg # T). fst (c ! i) = fst ((pg # T) ! i)
        \<and> grid_at h2 (snd (c ! i)) = Some (snd ((pg # T) ! i)) \<and> fresh_grid h h2 (snd (c ! i))"
  proof (intro allI impI)
    fix i assume i: "i < length (pg # T)"
    show "fst (c ! i) = fst ((pg # T) ! i)
        \<and> grid_at h2 (snd (c ! i)) = Some (snd ((pg # T) ! i)) \<and> fresh_grid h h2 (snd (c ! i))"
    proof (cases i)
      case 0
      then show ?thesis using g0 f0 c'(2) pg by (simp del: grid_at.simps)
    next
      case (Suc j)
      then have j: "j < length T" using i by simp
      have "fresh_grid h h2 (snd (c' ! j))"
        using IH(3) j fresh_grid_mono[of h1 h2 _ h] e1 by simp
      then show ?thesis using IH(3) j Suc c'(2) by (simp del: grid_at.simps)
    qed
  qed
  have "\<exists>ext. h2 = h @ ext" using e1 e2 by simp
  moreover have "length c = length (pg # T)" using c'(2) IH(2) by simp
  moreover have "distinct (map snd c)" using c'(2) IH(4) notin by simp
  ultimately show ?case using all by blast
qed

lemma write_tables_deep_copy:
  assumes T: "tables_at h t = Some T"
  shows "deep_copy h t (write_tables h T)"
proof -
  obtain c h2 where w: "write_tables h T = (c, h2)" by (cases "write_tables h T")
  from write_tables_read[OF w] obtain ext where r:
    "h2 = h @ ext" "length c = length T"
    "\<forall>i<length T. fst (c ! i) = fst (T ! i) \<and> grid_at h2 (snd (c ! i)) = Some (snd (T ! i))
         \<and> fresh_grid h h2 (snd (c ! i))"
    "distinct (map snd c)"
    by blast
  have len: "length T = length t" and keys: "\<forall>i<length t. fst (T ! i) = fst (t ! i)"
    using T unfolding tables_at_Some_iff by auto
  have 1: "take (length h) h2 = h" using r(1) by simp
  have 2: "map fst c = map fst t"
    by (rule nth_equalityI) (use r(2,3) len keys in auto)
  have 3: "tables_at h2 c = Some T"
    unfolding tables_at_Some_iff using r(2,3) by simp
  have 4: "list_all (fresh_grid h h2) (map snd c)"
    unfolding list_all_iff
  proof
    fix v assume "v \<in> set (map snd c)"
    then obtain i where "i < length c" "v = snd (c ! i)"
      by (metis in_set_conv_nth length_map nth_map)
    then show "fresh_grid h h2 v" using r(2,3) by simp
  qed
  show ?thesis using 1 2 3 4 r(4) T by (simp add: deep_copy_def w)
qed

lemma sample_cloneDeep_ok: "cloneDeep_ok sample_env"
  unfolding cloneDeep_ok_def
proof (intro allI impI)
  fix h assume "tables_at h (PIECE_SQUARE_TABLES sample_env) \<noteq> None"
  then obtain T where T: "tables_at h (PIECE_SQUARE_TABLES sample_env) = Some T" by auto
  then have "cloneDeep sample_env h (PIECE_SQUARE_TABLES sample_env) = write_tables h T"
    by (simp add: sample_env_def sample_cloneDeep_def)
  then show "deep_copy h (PIECE_SQUARE_TABLES sample_env)
       (cloneDeep sample_env h (PIECE_SQUARE_TABLES sample_env))"
    using write_tables_deep_copy[OF T] by simp
qed

section \<open>Table builder and initialisation\<close>

lemma heap_extend_length:
  assumes "take (length h) h1 = h"
  shows "length h \<le> length h1"
proof -
  have "length (take (length h) h1) = length h" using assms by simp
  then show ?thesis by simp
qed

lemma heap_extend_trans:
  assumes "take (length h) h1 = h" and "take (length h1) h2 = h1"
  shows "take (length h) h2 = h"
proof -
  have "take (length h) (take (length h1) h2) = take (length h) h2"
    using heap_extend_length[OF assms(1)] by (simp add: min_def)
  then show ?thesis using assms by simp
qed

lemma reverseSquareTablesForBlack_result:
  assumes clone: "deep_copy h (PIECE_SQUARE_TABLES K) (cloneDeep K h (PIECE_SQUARE_TABLES K))"
    and base: "tables_at h (PIECE_SQUARE_TABLES K) = Some T"
    and sep: "distinct (map snd (PIECE_SQUARE_TABLES K))"
  shows "\<exists>c h'. reverseSquareTablesForBlack K h = Some (c, h')
      \<and> map fst c = map fst (PIECE_SQUARE_TABLES K)
      \<and> list_all (fresh_grid h h') (map snd c)
      \<and> tables_at h' c = Some (reversed_rows T)
      \<and> take (length h) h' = h"
proof -
  obtain c h1 where ch: "cloneDeep K h (PIECE_SQUARE_TABLES K) = (c, h1)"
    by (cases "cloneDeep K h (PIECE_SQUARE_TABLES K)")
  have ext: "take (length h) h1 = h" and keys: "map fst c = map fst (PIECE_SQUARE_TABLES K)"
    and Tc: "tables_at h1 c = Some T" and fresh: "list_all (fresh_grid h h1) (map snd c)"
    and d: "distinct (map snd c)"
    using clone base sep by (simp_all add: deep_copy_def ch)
  from tables_at_reverse_each[OF Tc d] obtain h' where h':
    "reverse_each h1 (map snd c) = Some h'" "length h' = length h1"
    "tables_at h' c = Some (map (\<lambda>(p, g). (p, rev g)) T)"
    "\<forall>a<length h1. ArrV a \<notin> snd ` set c \<longrightarrow> h' ! a = h1 ! a"
    by blast
  have 1: "reverseSquareTablesForBlack K h = Some (c, h')"
    by (simp add: reverseSquareTablesForBlack_def ch h'(1))
  have 2: "list_all (fresh_grid h h') (map snd c)"
    using fresh fresh_grid_reverse_each[OF h'(1)] by (simp add: list_all_iff)
  have old: "\<And>a. a < length h \<Longrightarrow> h' ! a = h ! a"
  proof -
    fix a assume a: "a < length h"
    have "ArrV a \<notin> snd ` set c"
    proof
      assume "ArrV a \<in> snd ` set c"
      then have "fresh_grid h h1 (ArrV a)" using fresh by (auto simp: list_all_iff)
      then show False using a by (simp add: fresh_grid_def)
    qed
    then show "h' ! a = h ! a"
      using h'(4) heap_extend_nth[OF ext a] by simp
  qed
  have "length h \<le> length h1" using heap_extend_length[OF ext] .
  then have 3: "take (length h) h' = h"
    using old h'(2) by (intro nth_equalityI) simp_all
  show ?thesis using 1 keys 2 h'(3) 3 by (simp add: reversed_rows_def)
qed

lemma reversed_rows_nth:
  assumes "k < length T"
  shows "fst (reversed_rows T ! k) = fst (T ! k)" and "snd (reversed_rows T ! k) = rev (snd (T ! k))"
  using assms by (simp_all add: reversed_rows_def case_prod_beta)

lemma init_color:
  "init K E h this c fen =
     (if c = Black
      then blackStartInit K h (this\<lparr>color := Some c, chessEngine := load E (chessEngine this) fen\<rparr>)
      else whiteStartInit K h (this\<lparr>color := Some c, chessEngine := load E (chessEngine this) fen\<rparr>))"
  by (simp add: init_def isBlack_def Let_def)

lemma whiteStartInit_result:
  assumes ok: "cloneDeep_ok K"
    and base: "tables_at h (PIECE_SQUARE_TABLES K) = Some T"
    and sep: "distinct (map snd (PIECE_SQUARE_TABLES K))"
  shows "\<exists>a b h'. whiteStartInit K h this =
            Some (this\<lparr>aiSquareTables := Some a, opponentSquareTables := Some b\<rparr>, h')
       \<and> tables_at h' a = Some T \<and> tables_at h' b = Some (reversed_rows T)
       \<and> take (length h) h' = h"
proof -
  let ?P = "PIECE_SQUARE_TABLES K"
  obtain a h1 where ch: "cloneDeep K h ?P = (a, h1)" by (cases "cloneDeep K h ?P")
  have dc: "deep_copy h ?P (a, h1)" using ok base ch by (auto simp: cloneDeep_ok_def)
  then have ext1: "take (length h) h1 = h" and Ta: "tables_at h1 a = Some T"
    using base by (simp_all add: deep_copy_def)
  have base1: "tables_at h1 ?P = Some T" using tables_at_extend[OF ext1 base] .
  have "deep_copy h1 ?P (cloneDeep K h1 ?P)" using ok base1 by (simp add: cloneDeep_ok_def)
  from reverseSquareTablesForBlack_result[OF this base1 sep] obtain b h2 where r:
    "reverseSquareTablesForBlack K h1 = Some (b, h2)" "tables_at h2 b = Some (reversed_rows T)"
    "take (length h1) h2 = h1"
    by blast
  have "tables_at h2 a = Some T" using tables_at_extend[OF r(3) Ta] .
  moreover have "take (length h) h2 = h"
    using heap_extend_trans[OF ext1 r(3)] .
  moreover have "whiteStartInit K h this =
      Some (this\<lparr>aiSquareTables := Some a, opponentSquareTables := Some b\<rparr>, h2)"
    by (simp add: whiteStartInit_def ch r(1))
  ultimately show ?thesis using r(2) by blast
qed

lemma blackStartInit_result:
  assumes ok: "cloneDeep_ok K"
    and base: "tables_at h (PIECE_SQUARE_TABLES K) = Some T"
    and sep: "distinct (map snd (PIECE_SQUARE_TABLES K))"
  shows "\<exists>a b h'. blackStartInit K h this =
            Some (this\<lparr>aiSquareTables := Some a, opponentSquareTables := Some b\<rparr>, h')
       \<and> tables_at h' a = Some (reversed_rows T) \<and> tables_at h' b = Some T
       \<and> take (length h) h' = h"
proof -
  let ?P = "PIECE_SQUARE_TABLES K"
  have "deep_copy h ?P (cloneDeep K h ?P)" using ok base by (simp add: cloneDeep_ok_def)
  from reverseSquareTablesForBlack_result[OF this base sep] obtain a h1 where r:
    "reverseSquareTablesForBlack K h = Some (a, h1)" "tables_at h1 a = Some (reversed_rows T)"
    "take (length h) h1 = h"
    by blast
  have base1: "tables_at h1 ?P = Some T" using tables_at_extend[OF r(3) base] .
  obtain b h2 where ch: "cloneDeep K h1 ?P = (b, h2)" by (cases "cloneDeep K h1 ?P")
  have "deep_copy h1 ?P (b, h2)" using ok base1 ch by (auto simp: cloneDeep_ok_def)
  then have ext2: "take (length h1) h2 = h1" and Tb: "tables_at h2 b = Some T"
    using base1 by (simp_all add: deep_copy_def)
  have "tables_at h2 a = Some (reversed_rows T)" using tables_at_extend[OF ext2 r(2)] .
  moreover have "take (length h) h2 = h" using heap_extend_trans[OF r(3) ext2] .
  moreover have "blackStartInit K h this =
      Some (this\<lparr>aiSquareTables := Some a, opponentSquareTables := Some b\<rparr>, h2)"
    by (simp add: blackStartInit_def ch r(1))
  ultimately show ?thesis using Tb by blast
qed

lemma sample_tables_read:
  "tables_at sample_heap (PIECE_SQUARE_TABLES sample_env) = Some sample_tables"
  by (simp add: sample_env_def sample_heap_def sample_PIECE_SQUARE_TABLES_def sample_tables_def
      tables_at_def write_grid_def)

lemma sample_tables_distinct: "distinct (map snd (PIECE_SQUARE_TABLES sample_env))"
  by (simp add: sample_env_def sample_PIECE_SQUARE_TABLES_def sample_tables_def write_grid_def)

lemma sample_tables_rows: "\<forall>k<length sample_tables. length (snd (sample_tables ! k)) = 8"
  by (simp add: sample_tables_def less_Suc_eq all_conj_distrib)

text \<open>
  Claim C7. Where \<^verbatim>\<open>cloneDeep\<close> returns a fresh deep copy of the base table set, the base
  holds one grid of eight rows per piece type and no two of its properties share an array,
  \<^verbatim>\<open>reverseSquareTablesForBlack\<close> returns a table set with the keys of the base, made of
  arrays allocated by the call, in which every grid has row \<open>i\<close> of the base grid at
  position \<open>7 - i\<close> with the rows themselves (the column order) as they were; every cell
  the heap had before the call, and so the base table set, is as it was.
\<close>

theorem C7_reverseSquareTablesForBlack:
  assumes "deep_copy h (PIECE_SQUARE_TABLES K) (cloneDeep K h (PIECE_SQUARE_TABLES K))"
    and "tables_at h (PIECE_SQUARE_TABLES K) = Some T"
    and "distinct (map snd (PIECE_SQUARE_TABLES K))"
    and "\<forall>k<length T. length (snd (T ! k)) = 8"
  shows "\<exists>c h' T'. reverseSquareTablesForBlack K h = Some (c, h')
      \<and> map fst c = map fst (PIECE_SQUARE_TABLES K)
      \<and> list_all (fresh_grid h h') (map snd c)
      \<and> tables_at h' c = Some T' \<and> length T' = length T
      \<and> (\<forall>k<length T. fst (T' ! k) = fst (T ! k) \<and> length (snd (T' ! k)) = 8
             \<and> (\<forall>i<8. snd (T' ! k) ! i = snd (T ! k) ! (7 - i)))
      \<and> take (length h) h' = h
      \<and> tables_at h' (PIECE_SQUARE_TABLES K) = Some T"
proof -
  from reverseSquareTablesForBlack_result[OF assms(1,2,3)] obtain c h' where r:
    "reverseSquareTablesForBlack K h = Some (c, h')"
    "map fst c = map fst (PIECE_SQUARE_TABLES K)"
    "list_all (fresh_grid h h') (map snd c)"
    "tables_at h' c = Some (reversed_rows T)"
    "take (length h) h' = h"
    by blast
  have rows: "\<forall>k<length T. fst (reversed_rows T ! k) = fst (T ! k)
         \<and> length (snd (reversed_rows T ! k)) = 8
         \<and> (\<forall>i<8. snd (reversed_rows T ! k) ! i = snd (T ! k) ! (7 - i))"
    using assms(4) by (simp add: reversed_rows_nth rows_exchanged)
  have "length (reversed_rows T) = length T" by (simp add: reversed_rows_def)
  moreover have "tables_at h' (PIECE_SQUARE_TABLES K) = Some T"
    using tables_at_extend[OF r(5) assms(2)] .
  ultimately show ?thesis using r rows by blast
qed

lemma sample_deep_copy:
  "deep_copy sample_heap (PIECE_SQUARE_TABLES sample_env)
     (cloneDeep sample_env sample_heap (PIECE_SQUARE_TABLES sample_env))"
  using sample_cloneDeep_ok sample_tables_read by (simp add: cloneDeep_ok_def)

text \<open>The sample table set meets the hypotheses of C7.\<close>

theorem C7_witness:
  "\<exists>c h' T'. reverseSquareTablesForBlack sample_env sample_heap = Some (c, h')
      \<and> map fst c = map fst (PIECE_SQUARE_TABLES sample_env)
      \<and> list_all (fresh_grid sample_heap h') (map snd c)
      \<and> tables_at h' c = Some T' \<and> length T' = length sample_tables
      \<and> (\<forall>k<length sample_tables. fst (T' ! k) = fst (sample_tables ! k) \<and> length (snd (T' ! k)) = 8
             \<and> (\<forall>i<8. snd (T' ! k) ! i = snd (sample_tables ! k) ! (7 - i)))
      \<and> take (length sample_heap) h' = sample_heap
      \<and> tables_at h' (PIECE_SQUARE_TABLES sample_env) = Some sample_tables"
  using C7_reverseSquareTablesForBlack[OF sample_deep_copy sample_tables_read
      sample_tables_distinct sample_tables_rows] .

text \<open>
  Claim C1, as amended. After \<^verbatim>\<open>init\<close> with White the ai-tables hold the base grids and
  the opponent-tables hold the base grids with the row order reversed; after \<^verbatim>\<open>init\<close>
  with Black the ai-tables hold the row-reversed grids and the opponent-tables hold the
  base grids. (The claim has both table sets equal to the base for White and both
  reversed for Black.)
\<close>

theorem C1_init_tables:
  assumes "cloneDeep_ok K"
    and "tables_at h (PIECE_SQUARE_TABLES K) = Some T"
    and "distinct (map snd (PIECE_SQUARE_TABLES K))"
  shows "(\<exists>this' h' a b. init K E h this White fen = Some (this', h')
            \<and> aiSquareTables this' = Some a \<and> opponentSquareTables this' = Some b
            \<and> tables_at h' a = Some T \<and> tables_at h' b = Some (reversed_rows T))
       \<and> (\<exists>this' h' a b. init K E h this Black fen = Some (this', h')
            \<and> aiSquareTables this' = Some a \<and> opponentSquareTables this' = Some b
            \<and> tables_at h' a = Some (reversed_rows T) \<and> tables_at h' b = Some T)"
proof
  let ?w = "this\<lparr>color := Some White, chessEngine := load E (chessEngine this) fen\<rparr>"
  from whiteStartInit_result[OF assms, of ?w] obtain a b h' where
    "whiteStartInit K h ?w = Some (?w\<lparr>aiSquareTables := Some a, opponentSquareTables := Some b\<rparr>, h')"
    "tables_at h' a = Some T" "tables_at h' b = Some (reversed_rows T)"
    by blast
  then show "\<exists>this' h' a b. init K E h this White fen = Some (this', h')
            \<and> aiSquareTables this' = Some a \<and> opponentSquareTables this' = Some b
            \<and> tables_at h' a = Some T \<and> tables_at h' b = Some (reversed_rows T)"
    by (simp add: init_color)
next
  let ?b = "this\<lparr>color := Some Black, chessEngine := load E (chessEngine this) fen\<rparr>"
  from blackStartInit_result[OF assms, of ?b] obtain a b h' where
    "blackStartInit K h ?b = Some (?b\<lparr>aiSquareTables := Some a, opponentSquareTables := Some b\<rparr>, h')"
    "tables_at h' a = Some (reversed_rows T)" "tables_at h' b = Some T"
    by blast
  then show "\<exists>this' h' a b. init K E h this Black fen = Some (this', h')
            \<and> aiSquareTables this' = Some a \<and> opponentSquareTables this' = Some b
            \<and> tables_at h' a = Some (reversed_rows T) \<and> tables_at h' b = Some T"
    by (simp add: init_color)
qed

text \<open>The sample environment meets the hypotheses of C1.\<close>

theorem C1_witness:
  "(\<exists>this' h' a b. init sample_env sample_engine sample_heap (constructor sample_engine) White start_fen = Some (this', h')
            \<and> aiSquareTables this' = Some a \<and> opponentSquareTables this' = Some b
            \<and> tables_at h' a = Some sample_tables \<and> tables_at h' b = Some (reversed_rows sample_tables))
       \<and> (\<exists>this' h' a b. init sample_env sample_engine sample_heap (constructor sample_engine) Black start_fen = Some (this', h')
            \<and> aiSquareTables this' = Some a \<and> opponentSquareTables this' = Some b
            \<and> tables_at h' a = Some (reversed_rows sample_tables) \<and> tables_at h' b = Some sample_tables)"
  using C1_init_tables[OF sample_cloneDeep_ok sample_tables_read sample_tables_distinct] .

lemma reversed_sample_differs: "reversed_rows sample_tables \<noteq> sample_tables"
  by (simp add: reversed_rows_def sample_tables_def)

text \<open>
  Claim C1 as stated fails on the sample environment: after \<^verbatim>\<open>init\<close> with White the
  opponent-tables do not hold what the base tables hold.
\<close>

theorem C1_counterexample:
  "init sample_env sample_engine sample_heap (constructor sample_engine) White start_fen \<noteq> None
   \<and> tables_at (snd (the (init sample_env sample_engine sample_heap (constructor sample_engine) White start_fen)))
        (the (opponentSquareTables (fst (the (init sample_env sample_engine sample_heap (constructor sample_engine) White start_fen)))))
      \<noteq> tables_at sample_heap (PIECE_SQUARE_TABLES sample_env)"
proof -
  let ?w = "(constructor sample_engine)\<lparr>color := Some White,
     chessEngine := load sample_engine (chessEngine (constructor sample_engine)) start_fen\<rparr>"
  from whiteStartInit_result[OF sample_cloneDeep_ok sample_tables_read sample_tables_distinct, of ?w]
  obtain a b h' where
    "whiteStartInit sample_env sample_heap ?w =
       Some (?w\<lparr>aiSquareTables := Some a, opponentSquareTables := Some b\<rparr>, h')"
    "tables_at h' b = Some (reversed_rows sample_tables)"
    by blast
  then show ?thesis
    using reversed_sample_differs by (simp add: init_color sample_tables_read)
qed

section \<open>Incremental evaluator\<close>

lemma map_of_aligned:
  assumes "length T = length t" and "\<forall>i<length t. fst (T ! i) = fst (t ! i)"
    and "map_of T p = Some g"
  shows "\<exists>i<length t. map_of t p = Some (snd (t ! i)) \<and> snd (T ! i) = g"
  using assms
proof (induction T t rule: list_induct2)
  case Nil
  then show ?case by simp
next
  case (Cons x xs y ys)
  have k0: "fst x = fst y" using Cons.prems(1) by auto
  show ?case
  proof (cases "fst x = p")
    case True
    then have "snd x = g" using Cons.prems(2) by (cases x) auto
    moreover have "map_of (y # ys) p = Some (snd y)" using True k0 by (cases y) auto
    ultimately show ?thesis by auto
  next
    case False
    then have m: "map_of xs p = Some g" using Cons.prems(2) by (cases x) auto
    have "\<forall>i<length ys. fst (xs ! i) = fst (ys ! i)" using Cons.prems(1) by auto
    from Cons.IH[OF this m] obtain i where i: "i < length ys" "map_of ys p = Some (snd (ys ! i))"
      "snd (xs ! i) = g" by blast
    have "map_of (y # ys) p = Some (snd ((y # ys) ! Suc i))" using False k0 i(2) by (cases y) auto
    moreover have "snd ((x # xs) ! Suc i) = g" using i(3) by simp
    ultimately show ?thesis using i(1) by (metis Suc_less_eq length_Cons)
  qed
qed

lemma index3_read:
  assumes T: "tables_at h t = Some T" and p: "map_of T p = Some g"
    and r: "r < length g" and c: "c < length (g ! r)"
  shows "index3 h (Some t) p \<lparr>row = r, column = c\<rparr> = Some (g ! r ! c)"
proof -
  have len: "length T = length t" and keys: "\<forall>i<length t. fst (T ! i) = fst (t ! i)"
    and grids: "\<forall>i<length t. grid_at h (snd (t ! i)) = Some (snd (T ! i))"
    using T unfolding tables_at_Some_iff by auto
  from map_of_aligned[OF len keys p] obtain i where i: "i < length t"
    "map_of t p = Some (snd (t ! i))" "snd (T ! i) = g" by blast
  then have "grid_at h (snd (t ! i)) = Some g" using grids by simp
  from grid_at_Some[OF this] obtain a where a: "snd (t ! i) = ArrV a" "a < length h"
    "map (row_at h) (h ! a) = map Some g" by blast
  have la: "length (h ! a) = length g" using a(3) by (metis length_map)
  have "map (row_at h) (h ! a) ! r = map Some g ! r" using a(3) by simp
  then have "row_at h (h ! a ! r) = Some (g ! r)" using r la by simp
  from row_at_Some[OF this] obtain k where k: "h ! a ! r = ArrV k" "k < length h"
    "map num_of (h ! k) = map Some (g ! r)" by blast
  have lk: "length (h ! k) = length (g ! r)" using k(3) by (metis length_map)
  have "map num_of (h ! k) ! c = map Some (g ! r) ! c" using k(3) by simp
  then have "num_of (h ! k ! c) = Some (g ! r ! c)" using c lk by simp
  then show ?thesis using i(2) a(1,2) la r k(1,2) lk c by (simp add: index3_def)
qed

lemma evaluateBoard_chessEngine [simp]:
  "evaluateBoard K h (this\<lparr>chessEngine := e\<rparr>) mv s = evaluateBoard K h this mv s"
  unfolding evaluateBoard_def getAiValueFromSquareTable_def getOpponentValueFromSquareTable_def
  by (simp add: Let_def cong: if_cong option.case_cong)

lemma evaluateBoard_prevSum [simp]:
  "evaluateBoard K h (this\<lparr>prevSum := x\<rparr>) mv s = evaluateBoard K h this mv s"
  unfolding evaluateBoard_def getAiValueFromSquareTable_def getOpponentValueFromSquareTable_def
  by (simp add: Let_def cong: if_cong option.case_cong)

lemma white_init_eq:
  "\<exists>a b. init sample_env sample_engine sample_heap (constructor sample_engine) White start_fen
            = Some (white_manager, white_heap)
       \<and> color white_manager = Some White \<and> aiSquareTables white_manager = Some a
       \<and> opponentSquareTables white_manager = Some b
       \<and> chessEngine white_manager = [] \<and> prevSum white_manager = Num 0
       \<and> tables_at white_heap a = Some sample_tables
       \<and> tables_at white_heap b = Some (reversed_rows sample_tables)"
proof -
  let ?w = "(constructor sample_engine)\<lparr>color := Some White,
     chessEngine := load sample_engine (chessEngine (constructor sample_engine)) start_fen\<rparr>"
  from whiteStartInit_result[OF sample_cloneDeep_ok sample_tables_read sample_tables_distinct, of ?w]
  obtain a b h' where r:
    "whiteStartInit sample_env sample_heap ?w =
       Some (?w\<lparr>aiSquareTables := Some a, opponentSquareTables := Some b\<rparr>, h')"
    "tables_at h' a = Some sample_tables" "tables_at h' b = Some (reversed_rows sample_tables)"
    by blast
  then have "init sample_env sample_engine sample_heap (constructor sample_engine) White start_fen
     = Some (?w\<lparr>aiSquareTables := Some a, opponentSquareTables := Some b\<rparr>, h')"
    by (simp add: init_color)
  then show ?thesis
    using r(2,3)
    by (simp add: white_manager_def white_heap_def white_init_def constructor_def sample_engine_def)
qed

lemma black_init_eq:
  "\<exists>a b. init sample_env sample_engine sample_heap (constructor sample_engine) Black start_fen
            = Some (black_manager, black_heap)
       \<and> color black_manager = Some Black \<and> aiSquareTables black_manager = Some a
       \<and> opponentSquareTables black_manager = Some b
       \<and> chessEngine black_manager = [] \<and> prevSum black_manager = Num 0
       \<and> tables_at black_heap a = Some (reversed_rows sample_tables)
       \<and> tables_at black_heap b = Some sample_tables
       \<and> take (length sample_heap) black_heap = sample_heap"
proof -
  let ?w = "(constructor sample_engine)\<lparr>color := Some Black,
     chessEngine := load sample_engine (chessEngine (constructor sample_engine)) start_fen\<rparr>"
  from blackStartInit_result[OF sample_cloneDeep_ok sample_tables_read sample_tables_distinct, of ?w]
  obtain a b h' where r:
    "blackStartInit sample_env sample_heap ?w =
       Some (?w\<lparr>aiSquareTables := Some a, opponentSquareTables := Some b\<rparr>, h')"
    "tables_at h' a = Some (reversed_rows sample_tables)" "tables_at h' b = Some sample_tables"
    "take (length sample_heap) h' = sample_heap"
    by blast
  then have "init sample_env sample_engine sample_heap (constructor sample_engine) Black start_fen
     = Some (?w\<lparr>aiSquareTables := Some a, opponentSquareTables := Some b\<rparr>, h')"
    by (simp add: init_color)
  then show ?thesis
    using r(2,3,4)
    by (simp add: black_manager_def black_heap_def black_init_def constructor_def sample_engine_def)
qed

lemma white_color: "color white_manager = Some White"
  using white_init_eq by auto

lemma white_ai_read:
  assumes "map_of sample_tables p = Some g" and "r < length g" and "c < length (g ! r)"
  shows "getAiValueFromSquareTable white_heap white_manager p \<lparr>row = r, column = c\<rparr> = Some (g ! r ! c)"
proof -
  obtain a where "aiSquareTables white_manager = Some a" "tables_at white_heap a = Some sample_tables"
    using white_init_eq by auto
  then show ?thesis using index3_read[OF _ assms] by (simp add: getAiValueFromSquareTable_def)
qed

lemma white_opponent_read:
  assumes "map_of (reversed_rows sample_tables) p = Some g" and "r < length g" and "c < length (g ! r)"
  shows "getOpponentValueFromSquareTable white_heap white_manager p \<lparr>row = r, column = c\<rparr> = Some (g ! r ! c)"
proof -
  obtain b where "opponentSquareTables white_manager = Some b"
    "tables_at white_heap b = Some (reversed_rows sample_tables)"
    using white_init_eq by auto
  then show ?thesis using index3_read[OF _ assms] by (simp add: getOpponentValueFromSquareTable_def)
qed

lemma sample_pawn_grid:
  "map_of sample_tables Pawn = Some
        [[100, 100, 100, 100, 105, 100, 100, 100],
         [78, 83, 86, 73, 102, 82, 85, 90],
         [7, 29, 21, 44, 40, 31, 44, 7],
         [-17, 16, -2, 15, 14, 0, 15, -13],
         [-26, 3, 10, 9, 6, 1, 0, -23],
         [-22, 9, 5, -11, -10, -2, 3, -19],
         [-31, 8, -7, -37, -36, -14, 3, -31],
         [0, 0, 0, 0, 0, 0, 0, 0]]"
  by (simp add: sample_tables_def)

lemma sample_pawn_grid_reversed:
  "map_of (reversed_rows sample_tables) Pawn = Some
        [[0, 0, 0, 0, 0, 0, 0, 0],
         [-31, 8, -7, -37, -36, -14, 3, -31],
         [-22, 9, 5, -11, -10, -2, 3, -19],
         [-26, 3, 10, 9, 6, 1, 0, -23],
         [-17, 16, -2, 15, 14, 0, 15, -13],
         [7, 29, 21, 44, 40, 31, 44, 7],
         [78, 83, 86, 73, 102, 82, 85, 90],
         [100, 100, 100, 100, 105, 100, 100, 100]]"
  by (simp add: sample_tables_def reversed_rows_def)

lemma sample_queen_grid_reversed:
  "map_of (reversed_rows sample_tables) Queen = Some
        [[-39, -30, -31, -13, -31, -36, -34, -42],
         [-36, -18, 0, -19, -15, -15, -21, -38],
         [-30, -6, -13, -11, -16, -11, -16, -27],
         [-14, -15, -2, -5, -1, -10, -20, -22],
         [1, -16, 22, 17, 25, 20, -13, -6],
         [-2, 43, 32, 60, 72, 63, 43, 2],
         [14, 32, 60, -10, 20, 76, 57, 24],
         [6, 1, -8, -104, 69, 24, 88, 26]]"
  by (simp add: sample_tables_def reversed_rows_def)

lemma sample_positions:
  "getMatrixPosition sample_env ''d7'' = \<lparr>row = Suc 0, column = 3\<rparr>"
  "getMatrixPosition sample_env ''d5'' = \<lparr>row = 3, column = 3\<rparr>"
  "getMatrixPosition sample_env ''e4'' = \<lparr>row = 4, column = 4\<rparr>"
  "getMatrixPosition sample_env ''e2'' = \<lparr>row = 6, column = 4\<rparr>"
  "getMatrixPosition sample_env ''e1'' = \<lparr>row = 7, column = 4\<rparr>"
  by (simp_all add: sample_env_def)

lemma white_pawn_values:
  "getAiValueFromSquareTable white_heap white_manager Pawn \<lparr>row = Suc 0, column = 3\<rparr> = Some 73"
  "getAiValueFromSquareTable white_heap white_manager Pawn \<lparr>row = 3, column = 3\<rparr> = Some 15"
  "getAiValueFromSquareTable white_heap white_manager Pawn \<lparr>row = 4, column = 4\<rparr> = Some 6"
  "getOpponentValueFromSquareTable white_heap white_manager Pawn \<lparr>row = Suc 0, column = 3\<rparr> = Some (- 37)"
  "getOpponentValueFromSquareTable white_heap white_manager Pawn \<lparr>row = 3, column = 3\<rparr> = Some 9"
  "getOpponentValueFromSquareTable white_heap white_manager Pawn \<lparr>row = 6, column = 4\<rparr> = Some 102"
  "getOpponentValueFromSquareTable white_heap white_manager Pawn \<lparr>row = 7, column = 4\<rparr> = Some 105"
  "getOpponentValueFromSquareTable white_heap white_manager Queen \<lparr>row = 6, column = 4\<rparr> = Some 20"
  "getOpponentValueFromSquareTable white_heap white_manager Queen \<lparr>row = 7, column = 4\<rparr> = Some 69"
  using white_ai_read[OF sample_pawn_grid, of "Suc 0" 3] white_ai_read[OF sample_pawn_grid, of 3 3]
    white_ai_read[OF sample_pawn_grid, of 4 4]
    white_opponent_read[OF sample_pawn_grid_reversed, of "Suc 0" 3]
    white_opponent_read[OF sample_pawn_grid_reversed, of 3 3]
    white_opponent_read[OF sample_pawn_grid_reversed, of 6 4]
    white_opponent_read[OF sample_pawn_grid_reversed, of 7 4]
    white_opponent_read[OF sample_queen_grid_reversed, of 6 4]
    white_opponent_read[OF sample_queen_grid_reversed, of 7 4]
  by simp_all

lemma sample_weights: "PIECE_WEIGHTS sample_env = sample_PIECE_WEIGHTS"
  by (simp add: sample_env_def)

text \<open>
  Claim C2 on the sample: the engine plays White and Black makes the quiet move d7-d5
  from score 0. \<^verbatim>\<open>evaluateBoard\<close> returns 58, which is 0 + 73 - 15 with the entries of
  the ai-table; the entries of the opponent-table at the two squares are -37 and 9, so
  the claimed value is -46.
\<close>

theorem C2_opponent_quiet_move:
  "mv_color black_d5 = Black \<and> color white_manager = Some White
   \<and> mv_captured black_d5 = None \<and> mv_flags black_d5 = ''b''
   \<and> evaluateBoard sample_env white_heap white_manager black_d5 (Num 0) = Some (Num 58)
   \<and> getOpponentValueFromSquareTable white_heap white_manager (mv_piece black_d5)
        (getMatrixPosition sample_env (mv_from black_d5)) = Some (- 37)
   \<and> getOpponentValueFromSquareTable white_heap white_manager (mv_piece black_d5)
        (getMatrixPosition sample_env (mv_to black_d5)) = Some 9"
  by (simp add: evaluateBoard_def black_d5_def mk_move_def white_color sample_positions
      white_pawn_values num_sub_def)

text \<open>
  Claim C3, as amended. The capture block and the promotion-or-quiet block are two
  statements in sequence. On a move with a captured piece \<^verbatim>\<open>evaluateBoard\<close> applies the
  capture adjustment and then scores the same move without its captured piece from the
  adjusted sum; on a move without a captured piece exactly one of the two remaining
  branches applies, the promotion adjustment when the flags are \<^verbatim>\<open>"p"\<close> and the quiet-move
  positional adjustment otherwise. So a capturing move that is no promotion receives
  the capture adjustment and the quiet-move positional adjustment.
\<close>

theorem C3_evaluateBoard_branches:
  "(mv_captured mv = Some cap \<longrightarrow>
      evaluateBoard K h this mv s =
        (if Some (mv_color mv) = color this
         then getAiValueFromSquareTable h this cap (getMatrixPosition K (mv_to mv)) \<bind>
                (\<lambda>v. evaluateBoard K h this (mv\<lparr>mv_captured := None\<rparr>)
                        (num_add s (PIECE_WEIGHTS K cap + v)))
         else getOpponentValueFromSquareTable h this cap (getMatrixPosition K (mv_to mv)) \<bind>
                (\<lambda>v. evaluateBoard K h this (mv\<lparr>mv_captured := None\<rparr>)
                        (num_sub s (PIECE_WEIGHTS K cap + v)))))
   \<and> (mv_captured mv = None \<and> mv_flags mv \<noteq> ''p'' \<longrightarrow>
      evaluateBoard K h this mv s =
        getAiValueFromSquareTable h this (mv_piece mv) (getMatrixPosition K (mv_from mv)) \<bind>
          (\<lambda>v1. getAiValueFromSquareTable h this (mv_piece mv) (getMatrixPosition K (mv_to mv)) \<bind>
            (\<lambda>v2. Some (if Some (mv_color mv) = color this
                          then num_add (num_sub s v1) v2 else num_sub (num_add s v1) v2))))
   \<and> (mv_captured mv = None \<and> mv_flags mv = ''p'' \<longrightarrow>
      evaluateBoard K h this mv s =
        (if Some (mv_color mv) = color this
         then getAiValueFromSquareTable h this (mv_piece mv) (getMatrixPosition K (mv_from mv)) \<bind>
                (\<lambda>v1. getAiValueFromSquareTable h this Queen (getMatrixPosition K (mv_from mv)) \<bind>
                  (\<lambda>v2. Some (num_add (num_sub s (PIECE_WEIGHTS K (mv_piece mv) + v1))
                                  (PIECE_WEIGHTS K Queen + v2))))
         else getOpponentValueFromSquareTable h this (mv_piece mv) (getMatrixPosition K (mv_from mv)) \<bind>
                (\<lambda>v1. getOpponentValueFromSquareTable h this (mv_piece mv) (getMatrixPosition K (mv_to mv)) \<bind>
                  (\<lambda>v2. Some (num_sub (num_add s (PIECE_WEIGHTS K (mv_piece mv) + v1))
                                  (PIECE_WEIGHTS K Queen + v2))))))"
  by (simp add: evaluateBoard_def Let_def)

text \<open>
  On the sample: White (the engine) captures on d5 from e4, from score 0. The capture
  adjustment gives 115 and the quiet-move adjustment of the same move brings it to 124.
\<close>

theorem C3_witness:
  "mv_captured white_exd5 = Some Pawn \<and> mv_flags white_exd5 = ''c''
   \<and> evaluateBoard sample_env white_heap white_manager white_exd5 (Num 0) = Some (Num 124)"
  using C3_evaluateBoard_branches[of white_exd5 Pawn sample_env white_heap white_manager "Num 0"]
    C3_evaluateBoard_branches[of "white_exd5\<lparr>mv_captured := None\<rparr>" Pawn sample_env white_heap
      white_manager "Num 115"]
  by (simp add: white_exd5_def mk_move_def white_color sample_positions white_pawn_values
      sample_weights num_sub_def)

text \<open>
  Claim C3 as stated fails there: the evaluator returns 124, and the capture adjustment
  alone is 115.
\<close>

theorem C3_counterexample:
  "mv_captured white_exd5 = Some Pawn
   \<and> evaluateBoard sample_env white_heap white_manager white_exd5 (Num 0) = Some (Num 124)
   \<and> getAiValueFromSquareTable white_heap white_manager Pawn (getMatrixPosition sample_env (mv_to white_exd5)) \<bind>
        (\<lambda>v. Some (num_add (Num 0) (PIECE_WEIGHTS sample_env Pawn + v))) = Some (Num 115)"
  by (simp add: evaluateBoard_def white_exd5_def mk_move_def white_color sample_positions
      white_pawn_values sample_weights num_sub_def)

text \<open>
  The promotion block is entered only when the flags are exactly \<^verbatim>\<open>p\<close>; a move with
  any other flags is scored as a regular move of the piece.
\<close>

lemma evaluateBoard_flags:
  assumes "mv_flags mv \<noteq> ''p''"
  shows "evaluateBoard K h this mv s
       = evaluateBoard K h this (mv\<lparr>mv_flags := ''n'', mv_promotion := None\<rparr>) s"
  using assms by (simp add: evaluateBoard_def)

lemma sample_queen_grid:
  "map_of sample_tables Queen = Some
        [[6, 1, -8, -104, 69, 24, 88, 26],
         [14, 32, 60, -10, 20, 76, 57, 24],
         [-2, 43, 32, 60, 72, 63, 43, 2],
         [1, -16, 22, 17, 25, 20, -13, -6],
         [-14, -15, -2, -5, -1, -10, -20, -22],
         [-30, -6, -13, -11, -16, -11, -16, -27],
         [-36, -18, 0, -19, -15, -15, -21, -38],
         [-39, -30, -31, -13, -31, -36, -34, -42]]"
  by (simp add: sample_tables_def)

lemma promotion_positions:
  "getMatrixPosition sample_env ''e7'' = \<lparr>row = Suc 0, column = 4\<rparr>"
  "getMatrixPosition sample_env ''e8'' = \<lparr>row = 0, column = 4\<rparr>"
  by (simp_all add: sample_env_def)

lemma white_promotion_values:
  "getAiValueFromSquareTable white_heap white_manager Pawn \<lparr>row = Suc 0, column = 4\<rparr> = Some 102"
  "getAiValueFromSquareTable white_heap white_manager Pawn \<lparr>row = 0, column = 4\<rparr> = Some 105"
  "getAiValueFromSquareTable white_heap white_manager Queen \<lparr>row = Suc 0, column = 4\<rparr> = Some 20"
  "getAiValueFromSquareTable white_heap white_manager Queen \<lparr>row = 0, column = 4\<rparr> = Some 69"
  "getAiValueFromSquareTable white_heap white_manager Pawn \<lparr>row = 6, column = 4\<rparr> = Some (- 36)"
  "getAiValueFromSquareTable white_heap white_manager Pawn \<lparr>row = 7, column = 4\<rparr> = Some 0"
  using white_ai_read[OF sample_pawn_grid, of "Suc 0" 4] white_ai_read[OF sample_pawn_grid, of 0 4]
    white_ai_read[OF sample_queen_grid, of "Suc 0" 4] white_ai_read[OF sample_queen_grid, of 0 4]
    white_ai_read[OF sample_pawn_grid, of 6 4] white_ai_read[OF sample_pawn_grid, of 7 4]
  by simp_all

text \<open>
  Claim C9 on the sample: the engine plays White and promotes its pawn from e7 on e8 to a
  knight, from score 0. The move is as chess.js returns it, with the flags \<^verbatim>\<open>np\<close>, so
  the test \<^verbatim>\<open>move.flags === "p"\<close> fails and \<^verbatim>\<open>evaluateBoard\<close> takes the regular-move
  block: it returns 3, which is 0 - 102 + 105 with the pawn's entries of the ai-table at
  the two squares, and no queen's weight enters. The same move promoting to a queen is
  scored the same. Were the flags \<^verbatim>\<open>p\<close>, the promotion block would give
  0 - (100 + 102) + (929 + 20) = 747, with the queen's material weight and the queen's
  entry at the origin. Likewise a promotion by Black from e2 on e1 is scored -36 by the
  regular-move block, where the promotion block would give -832.
\<close>

theorem C9_promotion_flags:
  "mv_flags white_e8_knight = ''np'' \<and> mv_promotion white_e8_knight = Some Knight
   \<and> mv_color white_e8_knight = White \<and> color white_manager = Some White
   \<and> evaluateBoard sample_env white_heap white_manager white_e8_knight (Num 0) = Some (Num 3)
   \<and> evaluateBoard sample_env white_heap white_manager (white_e8_knight\<lparr>mv_promotion := Some Queen\<rparr>)
        (Num 0) = Some (Num 3)
   \<and> evaluateBoard sample_env white_heap white_manager (white_e8_knight\<lparr>mv_flags := ''p''\<rparr>)
        (Num 0) = Some (Num 747)
   \<and> PIECE_WEIGHTS sample_env Pawn = 100 \<and> PIECE_WEIGHTS sample_env Queen = 929
   \<and> getAiValueFromSquareTable white_heap white_manager Pawn
        (getMatrixPosition sample_env (mv_from white_e8_knight)) = Some 102
   \<and> getAiValueFromSquareTable white_heap white_manager Pawn
        (getMatrixPosition sample_env (mv_to white_e8_knight)) = Some 105
   \<and> getAiValueFromSquareTable white_heap white_manager Queen
        (getMatrixPosition sample_env (mv_from white_e8_knight)) = Some 20
   \<and> getAiValueFromSquareTable white_heap white_manager Queen
        (getMatrixPosition sample_env (mv_to white_e8_knight)) = Some 69
   \<and> mv_flags black_e1_knight = ''np'' \<and> mv_color black_e1_knight = Black
   \<and> evaluateBoard sample_env white_heap white_manager black_e1_knight (Num 0) = Some (Num (- 36))
   \<and> evaluateBoard sample_env white_heap white_manager (black_e1_knight\<lparr>mv_flags := ''p''\<rparr>)
        (Num 0) = Some (Num (- 832))"
  by (simp add: evaluateBoard_def white_e8_knight_def black_e1_knight_def mk_move_def white_color
      sample_positions promotion_positions white_pawn_values white_promotion_values
      sample_weights num_sub_def)

text \<open>The evaluator never reads the promotion piece of a move.\<close>

lemma evaluateBoard_promotion_field:
  "evaluateBoard K h this (mv\<lparr>mv_promotion := x\<rparr>) s = evaluateBoard K h this mv s"
  by (simp add: evaluateBoard_def)

lemma startInit_prevSum:
  "whiteStartInit K h this = Some (this', h') \<Longrightarrow> prevSum this' = prevSum this"
  "blackStartInit K h this = Some (this', h') \<Longrightarrow> prevSum this' = prevSum this"
  by (auto simp: whiteStartInit_def blackStartInit_def split: prod.splits option.splits)

lemma init_prevSum:
  "init K E h this c fen = Some (this', h') \<Longrightarrow> prevSum this' = prevSum this"
  by (auto simp: init_color dest: startInit_prevSum split: if_splits)

text \<open>
  Claim C4, as amended. The running score is 0 on a newly constructed session, and
  \<^verbatim>\<open>init\<close> leaves the running score of the session as it was, for every color and
  starting position: it is 0 after the first initialisation and the prior running score
  after a later one.
\<close>

theorem C4_init_prevSum:
  "prevSum (constructor E) = Num 0
   \<and> (\<forall>this' h'. init K E h this c fen = Some (this', h') \<longrightarrow> prevSum this' = prevSum this)"
  using init_prevSum by (auto simp: constructor_def)

text \<open>On the sample: initialising the newly constructed session succeeds.\<close>

theorem C4_witness:
  "init sample_env sample_engine sample_heap (constructor sample_engine) White start_fen
     = Some (white_manager, white_heap)
   \<and> prevSum white_manager = prevSum (constructor sample_engine)
   \<and> prevSum (constructor sample_engine) = Num 0"
  using C4_init_prevSum[of sample_engine sample_env sample_heap "constructor sample_engine" White start_fen]
    white_init_eq
  by auto

lemma black_color: "color black_manager = Some Black"
  using black_init_eq by auto

lemma black_ai_read:
  assumes "map_of (reversed_rows sample_tables) p = Some g" and "r < length g" and "c < length (g ! r)"
  shows "getAiValueFromSquareTable black_heap black_manager p \<lparr>row = r, column = c\<rparr> = Some (g ! r ! c)"
proof -
  obtain a where "aiSquareTables black_manager = Some a"
    "tables_at black_heap a = Some (reversed_rows sample_tables)"
    using black_init_eq by auto
  then show ?thesis using index3_read[OF _ assms] by (simp add: getAiValueFromSquareTable_def)
qed

lemma black_pawn_values:
  "getAiValueFromSquareTable black_heap black_manager Pawn \<lparr>row = 6, column = 4\<rparr> = Some 102"
  "getAiValueFromSquareTable black_heap black_manager Pawn \<lparr>row = 4, column = 4\<rparr> = Some 14"
  using black_ai_read[OF sample_pawn_grid_reversed, of 6 4]
    black_ai_read[OF sample_pawn_grid_reversed, of 4 4]
  by simp_all

lemma black_after_e4_eq:
  "updateBoardWithPlayerMove sample_env sample_engine black_heap black_manager white_e4
     = Some black_after_e4 \<and> prevSum black_after_e4 = Num 88"
proof -
  have "prevSum black_manager = Num 0" using black_init_eq by auto
  then have "evaluateBoard sample_env black_heap black_manager white_e4 (prevSum black_manager) = Some (Num 88)"
    by (simp add: evaluateBoard_def white_e4_def mk_move_def black_color sample_positions
      black_pawn_values num_sub_def)
  then show ?thesis
    by (simp add: updateBoardWithPlayerMove_def black_after_e4_def Let_def)
qed

lemma black_heap_base: "tables_at black_heap (PIECE_SQUARE_TABLES sample_env) = Some sample_tables"
proof -
  have "take (length sample_heap) black_heap = sample_heap" using black_init_eq by auto
  from tables_at_extend[OF this sample_tables_read] show ?thesis .
qed

text \<open>
  Claim C4 as stated fails on the sample: the Black session records White's e4, its
  running score becomes 88, and initialising it again leaves 88.
\<close>

theorem C4_counterexample:
  "updateBoardWithPlayerMove sample_env sample_engine black_heap black_manager white_e4 \<noteq> None
   \<and> black_reinit \<noteq> None \<and> prevSum (fst (the black_reinit)) = Num 88"
proof -
  let ?w = "black_after_e4\<lparr>color := Some Black,
     chessEngine := load sample_engine (chessEngine black_after_e4) start_fen\<rparr>"
  from blackStartInit_result[OF sample_cloneDeep_ok black_heap_base sample_tables_distinct, of ?w]
  obtain this' h' where r: "blackStartInit sample_env black_heap ?w = Some (this', h')" by blast
  then have i: "black_reinit = Some (this', h')" by (simp add: black_reinit_def init_color)
  then have p: "prevSum this' = prevSum black_after_e4"
    using init_prevSum by (simp add: black_reinit_def)
  show ?thesis using black_after_e4_eq by (simp add: i p)
qed

section \<open>Session operations\<close>

text \<open>
  Claim C10. When the engine reports no legal move, \<^verbatim>\<open>calcAiMove\<close> returns \<^verbatim>\<open>null\<close> and
  the running score is as before; the session differs at most in what the engine's
  \<^verbatim>\<open>move(null)\<close> does to the engine.
\<close>

theorem C10_calcAiMove_no_moves:
  assumes "moves E (chessEngine this) = []"
  shows "calcAiMove K E h this =
           Some (None, this\<lparr>chessEngine := snd (move E (chessEngine this) Null)\<rparr>)
       \<and> (\<exists>this'. calcAiMove K E h this = Some (None, this') \<and> prevSum this' = prevSum this)"
  using assms by (simp add: calcAiMove_def numeral_3_eq_3)

text \<open>On the sample: a session whose game has reached its last position.\<close>

theorem C10_witness:
  "moves sample_engine (chessEngine white_finished) = []
   \<and> calcAiMove sample_env sample_engine white_heap white_finished = Some (None, white_finished)
   \<and> prevSum white_finished = Num 42"
  using C10_calcAiMove_no_moves[of sample_engine white_finished sample_env white_heap]
  by (simp add: white_finished_def sample_engine_def sample_moves_def)

section \<open>Pruning on the game tree\<close>

lemma NegInfinity_least [simp]: "NegInfinity \<le> (x::number)"
  by (simp add: less_eq_number_def)

lemma Infinity_greatest [simp]: "(x::number) \<le> Infinity"
  by (cases x) (simp_all add: less_eq_number_def)

lemma not_less_NegInfinity [simp]: "\<not> (x::number) < NegInfinity"
  by (simp add: not_less)

lemma not_Infinity_less [simp]: "\<not> Infinity < (x::number)"
  by (simp add: not_less)

lemma NegInfinity_less_Infinity [simp]: "NegInfinity < Infinity"
  by (simp add: less_number_def)

lemma Num_le_iff [simp]: "(Num x \<le> Num y) = (x \<le> y)"
  by (simp add: less_eq_number_def)

lemma Num_less_iff [simp]: "(Num x < Num y) = (x < y)"
  by (auto simp: less_number_def)

lemma le_NegInfinity_iff [simp]: "((x::number) \<le> NegInfinity) = (x = NegInfinity)"
  by (cases x) (simp_all add: less_eq_number_def)

lemma Infinity_le_iff [simp]: "(Infinity \<le> (x::number)) = (x = Infinity)"
  by (cases x) (simp_all add: less_eq_number_def)

lemma NegInfinity_less_iff [simp]: "(NegInfinity < (x::number)) = (x \<noteq> NegInfinity)"
  by (cases x) (simp_all add: less_number_def)

lemma less_Infinity_iff [simp]: "((x::number) < Infinity) = (x \<noteq> Infinity)"
  by (cases x) (simp_all add: less_number_def)

lemma bounded_full: "bounded NegInfinity Infinity t v \<Longrightarrow> v = t"
  by (auto simp: bounded_def min_def max_def split: if_splits)

text \<open>One step of the maximising loop keeps the bound.\<close>

lemma bounded_max_exit:
  fixes a b :: number
  assumes "a < b" and "M \<le> a" and "bounded a b c cv" and "b \<le> max a cv" and "c \<le> T" 
  shows "bounded a b T (if M < cv then cv else M)"
  using assms by (auto simp: bounded_def min_def max_def split: if_splits)

lemma bounded_max_step:
  fixes a b :: number
  assumes "a < b" and "M \<le> a" and "bounded a b c cv" and "\<not> b \<le> max a cv"
    and "bounded (max a cv) b T' v" and "T' = max (if M < cv then cv else M) R" and "T = max M (max c R)"
  shows "bounded a b T v"
  using assms by (auto simp: bounded_def min_def max_def split: if_splits)

lemma bounded_min_exit:
  fixes a b :: number
  assumes "a < b" and "b \<le> m" and "bounded a b c cv" and "min cv b \<le> a" and "T \<le> c"
  shows "bounded a b T (if cv < m then cv else m)"
  using assms by (auto simp: bounded_def min_def max_def split: if_splits)

lemma bounded_min_step:
  fixes a b :: number
  assumes "a < b" and "b \<le> m" and "bounded a b c cv" and "\<not> min cv b \<le> a"
    and "bounded a (min cv b) T' v" and "T' = min (if cv < m then cv else m) R" and "T = min m (min c R)"
  shows "bounded a b T v"
  using assms by (auto simp: bounded_def min_def max_def split: if_splits)

lemma plain_children_bestMove:
  "snd (plain_children mx M m bm ts) = snd (plain_children mx M m None ts)"
proof (induction ts arbitrary: M m bm)
  case Nil
  show ?case by simp
next
  case (Cons x ts)
  obtain cm t where x: "x = (cm, t)" by (cases x)
  let ?c = "snd (plain_tree (\<not> mx) t)"
  show ?case
  proof (cases mx)
    case True
    show ?thesis
    proof (cases "M < ?c")
      case lt: True
      then show ?thesis
        using Cons.IH[of ?c m "Some cm"] True by (simp add: x Let_def)
    next
      case ge: False
      then show ?thesis
        using Cons.IH[of M m bm] True by (simp add: x Let_def)
    qed
  next
    case False
    show ?thesis
    proof (cases "?c < m")
      case lt: True
      then show ?thesis
        using Cons.IH[of M ?c "Some cm"] False by (simp add: x Let_def)
    next
      case ge: False
      then show ?thesis
        using Cons.IH[of M m bm] False by (simp add: x Let_def)
    qed
  qed
qed

lemma plain_children_max:
  "snd (plain_children True M m bm ts) = max M (snd (plain_children True NegInfinity m None ts))"
proof (induction ts arbitrary: M bm)
  case Nil
  show ?case by (simp add: max_def)
next
  case (Cons x ts)
  obtain cm t where x: "x = (cm, t)" by (cases x)
  let ?c = "snd (plain_tree False t)"
  let ?R = "snd (plain_children True NegInfinity m None ts)"
  have l: "snd (plain_children True M m bm (x # ts)) = max (if M < ?c then ?c else M) ?R"
    using Cons.IH[of "if M < ?c then ?c else M" "if M < ?c then Some cm else bm"]
    by (simp add: x Let_def)
  have "snd (plain_children True NegInfinity m None (x # ts))
      = snd (plain_children True (if NegInfinity < ?c then ?c else NegInfinity) m None ts)"
    using plain_children_bestMove[of True "if NegInfinity < ?c then ?c else NegInfinity" m _ ts]
    by (simp add: x Let_def)
  also have "\<dots> = max (if NegInfinity < ?c then ?c else NegInfinity) ?R"
    using Cons.IH[of "if NegInfinity < ?c then ?c else NegInfinity" None] by simp
  finally have r: "snd (plain_children True NegInfinity m None (x # ts))
      = max (if NegInfinity < ?c then ?c else NegInfinity) ?R" .
  show ?case unfolding l r by (auto simp: max_def)
qed

lemma plain_children_min:
  "snd (plain_children False M m bm ts) = min m (snd (plain_children False M Infinity None ts))"
proof (induction ts arbitrary: m bm)
  case Nil
  show ?case by (simp add: min_def)
next
  case (Cons x ts)
  obtain cm t where x: "x = (cm, t)" by (cases x)
  let ?c = "snd (plain_tree True t)"
  let ?R = "snd (plain_children False M Infinity None ts)"
  have l: "snd (plain_children False M m bm (x # ts)) = min (if ?c < m then ?c else m) ?R"
    using Cons.IH[of "if ?c < m then ?c else m" "if ?c < m then Some cm else bm"]
    by (simp add: x Let_def)
  have "snd (plain_children False M Infinity None (x # ts))
      = snd (plain_children False M (if ?c < Infinity then ?c else Infinity) None ts)"
    using plain_children_bestMove[of False M "if ?c < Infinity then ?c else Infinity" _ ts]
    by (simp add: x Let_def)
  also have "\<dots> = min (if ?c < Infinity then ?c else Infinity) ?R"
    using Cons.IH[of "if ?c < Infinity then ?c else Infinity" None] by simp
  finally have r: "snd (plain_children False M Infinity None (x # ts))
      = min (if ?c < Infinity then ?c else Infinity) ?R" .
  show ?case unfolding l r by (auto simp: min_def)
qed

lemma plain_children_max_Cons:
  "snd (plain_children True M m bm ((cm, t) # ts))
     = max M (max (snd (plain_tree False t)) (snd (plain_children True NegInfinity m None ts)))"
proof -
  let ?c = "snd (plain_tree False t)"
  have "snd (plain_children True M m bm ((cm, t) # ts))
      = snd (plain_children True (if M < ?c then ?c else M) m (if M < ?c then Some cm else bm) ts)"
    by (simp add: Let_def)
  also have "\<dots> = max (if M < ?c then ?c else M) (snd (plain_children True NegInfinity m None ts))"
    by (rule plain_children_max)
  finally show ?thesis by (auto simp: max_def)
qed

lemma plain_children_min_Cons:
  "snd (plain_children False M m bm ((cm, t) # ts))
     = min m (min (snd (plain_tree True t)) (snd (plain_children False M Infinity None ts)))"
proof -
  let ?c = "snd (plain_tree True t)"
  have "snd (plain_children False M m bm ((cm, t) # ts))
      = snd (plain_children False M (if ?c < m then ?c else m) (if ?c < m then Some cm else bm) ts)"
    by (simp add: Let_def)
  also have "\<dots> = min (if ?c < m then ?c else m) (snd (plain_children False M Infinity None ts))"
    by (rule plain_children_min)
  finally show ?thesis by (auto simp: min_def)
qed

lemma ab_children_max_bounded:
  assumes child: "\<And>cm t a b. (cm, t) \<in> set ts \<Longrightarrow> a < b \<Longrightarrow>
      bounded a b (snd (plain_tree False t)) (snd (ab_tree False a b t))"
    and "a < b" and "M \<le> a"
  shows "bounded a b (snd (plain_children True M m bm ts)) (snd (ab_children True a b M m2 bm2 ts))"
  using assms
proof (induction ts arbitrary: a M bm bm2)
  case Nil
  then show ?case by (auto simp: bounded_def min_def max_def)
next
  case (Cons x ts)
  obtain cm t where x: "x = (cm, t)" by (cases x)
  let ?c = "snd (plain_tree False t)"
  let ?cv = "snd (ab_tree False a b t)"
  let ?R = "snd (plain_children True NegInfinity m None ts)"
  let ?M' = "if M < ?cv then ?cv else M"
  let ?bm' = "if M < ?cv then Some cm else bm2"
  have T: "snd (plain_children True M m bm (x # ts)) = max M (max ?c ?R)"
    by (simp only: x plain_children_max_Cons)
  have c: "bounded a b ?c ?cv" using Cons.prems(1)[of cm t a b] Cons.prems(2) x by simp
  show ?case
  proof (cases "b \<le> max a ?cv")
    case True
    then have "snd (ab_children True a b M m2 bm2 (x # ts)) = ?M'"
      by (simp add: x Let_def)
    moreover have "bounded a b (max M (max ?c ?R)) ?M'"
      by (rule bounded_max_exit[OF Cons.prems(2,3) c True]) (simp add: le_max_iff_disj)
    ultimately show ?thesis using T by simp
  next
    case False
    then have ab: "snd (ab_children True a b M m2 bm2 (x # ts))
        = snd (ab_children True (max a ?cv) b ?M' m2 ?bm' ts)"
      by (simp add: x Let_def)
    have lt: "max a ?cv < b" using False by (simp add: not_le)
    have le: "?M' \<le> max a ?cv" using Cons.prems(3) by (auto simp: max_def)
    have "bounded (max a ?cv) b (snd (plain_children True ?M' m None ts))
        (snd (ab_children True (max a ?cv) b ?M' m2 ?bm' ts))"
      by (rule Cons.IH[OF _ lt le]) (use Cons.prems(1) in auto)
    moreover have "snd (plain_children True ?M' m None ts) = max ?M' ?R"
      by (rule plain_children_max)
    ultimately have "bounded (max a ?cv) b (max ?M' ?R)
        (snd (ab_children True (max a ?cv) b ?M' m2 ?bm' ts))" by simp
    from bounded_max_step[OF Cons.prems(2,3) c False this refl refl]
    show ?thesis using T ab by simp
  qed
qed

lemma ab_children_min_bounded:
  assumes child: "\<And>cm t a b. (cm, t) \<in> set ts \<Longrightarrow> a < b \<Longrightarrow>
      bounded a b (snd (plain_tree True t)) (snd (ab_tree True a b t))"
    and "a < b" and "b \<le> m"
  shows "bounded a b (snd (plain_children False M m bm ts)) (snd (ab_children False a b M2 m bm2 ts))"
  using assms
proof (induction ts arbitrary: b m bm bm2)
  case Nil
  then show ?case by (auto simp: bounded_def min_def max_def)
next
  case (Cons x ts)
  obtain cm t where x: "x = (cm, t)" by (cases x)
  let ?c = "snd (plain_tree True t)"
  let ?cv = "snd (ab_tree True a b t)"
  let ?R = "snd (plain_children False M Infinity None ts)"
  let ?m' = "if ?cv < m then ?cv else m"
  let ?bm' = "if ?cv < m then Some cm else bm2"
  have T: "snd (plain_children False M m bm (x # ts)) = min m (min ?c ?R)"
    by (simp only: x plain_children_min_Cons)
  have c: "bounded a b ?c ?cv" using Cons.prems(1)[of cm t a b] Cons.prems(2) x by simp
  show ?case
  proof (cases "min ?cv b \<le> a")
    case True
    then have "snd (ab_children False a b M2 m bm2 (x # ts)) = ?m'"
      by (simp add: x Let_def)
    moreover have "bounded a b (min m (min ?c ?R)) ?m'"
      by (rule bounded_min_exit[OF Cons.prems(2,3) c True]) (simp add: min_le_iff_disj)
    ultimately show ?thesis using T by simp
  next
    case False
    then have ab: "snd (ab_children False a b M2 m bm2 (x # ts))
        = snd (ab_children False a (min ?cv b) M2 ?m' ?bm' ts)"
      by (simp add: x Let_def)
    have lt: "a < min ?cv b" using False by (simp add: not_le)
    have le: "min ?cv b \<le> ?m'" using Cons.prems(3) by (auto simp: min_def)
    have "bounded a (min ?cv b) (snd (plain_children False M ?m' None ts))
        (snd (ab_children False a (min ?cv b) M2 ?m' ?bm' ts))"
      by (rule Cons.IH[OF _ lt le]) (use Cons.prems(1) in auto)
    moreover have "snd (plain_children False M ?m' None ts) = min ?m' ?R"
      by (rule plain_children_min)
    ultimately have "bounded a (min ?cv b) (min ?m' ?R)
        (snd (ab_children False a (min ?cv b) M2 ?m' ?bm' ts))" by simp
    from bounded_min_step[OF Cons.prems(2,3) c False this refl refl]
    show ?thesis using T ab by simp
  qed
qed

lemma ab_tree_bounded:
  "a < b \<Longrightarrow> bounded a b (snd (plain_tree mx t)) (snd (ab_tree mx a b t))"
proof (induction t arbitrary: mx a b)
  case (Node s ts)
  have IH: "\<And>cm t mx a b. (cm, t) \<in> set ts \<Longrightarrow> a < b \<Longrightarrow>
      bounded a b (snd (plain_tree mx t)) (snd (ab_tree mx a b t))"
    using Node.IH by fastforce
  show ?case
  proof (cases "ts = []")
    case True
    then show ?thesis by (auto simp: bounded_def min_def max_def)
  next
    case False
    show ?thesis
    proof (cases mx)
      case True
      have "bounded a b (snd (plain_children True NegInfinity Infinity None ts))
          (snd (ab_children True a b NegInfinity Infinity None ts))"
        by (rule ab_children_max_bounded[OF IH Node.prems]) simp_all
      then show ?thesis using True False by simp
    next
      case mn: False
      have "bounded a b (snd (plain_children False NegInfinity Infinity None ts))
          (snd (ab_children False a b NegInfinity Infinity None ts))"
        by (rule ab_children_min_bounded[OF IH Node.prems]) simp_all
      then show ?thesis using mn False by simp
    qed
  qed
qed

lemma plain_children_top:
  "plain_children True Infinity m bm ts = (bm, Infinity)"
proof (induction ts arbitrary: bm)
  case Nil
  show ?case by simp
next
  case (Cons x ts)
  obtain cm t where x: "x = (cm, t)" by (cases x)
  show ?case using Cons.IH[of bm] by (simp add: x Let_def)
qed

lemma plain_children_bottom:
  "plain_children False M NegInfinity bm ts = (bm, NegInfinity)"
proof (induction ts arbitrary: bm)
  case Nil
  show ?case by simp
next
  case (Cons x ts)
  obtain cm t where x: "x = (cm, t)" by (cases x)
  show ?case using Cons.IH[of bm] by (simp add: x Let_def)
qed

lemma ab_children_max_full:
  assumes "M \<noteq> Infinity"
  shows "ab_children True M Infinity M m bm ts = plain_children True M m bm ts"
  using assms
proof (induction ts arbitrary: M bm)
  case Nil
  show ?case by simp
next
  case (Cons x ts)
  obtain cm t where x: "x = (cm, t)" by (cases x)
  let ?c = "snd (plain_tree False t)"
  let ?cv = "snd (ab_tree False M Infinity t)"
  have "bounded M Infinity ?c ?cv" using ab_tree_bounded[of M Infinity False t] Cons.prems by simp
  then have b: "?c \<le> ?cv" "?cv \<le> max ?c M" by (simp_all add: bounded_def)
  show ?case
  proof (cases "M < ?c")
    case True
    then have cv: "?cv = ?c" using b by (auto simp: max_def split: if_splits)
    have a': "max M ?c = ?c" using True by (auto simp: max_def)
    show ?thesis
    proof (cases "?c = Infinity")
      case inf: True
      then show ?thesis using True cv a' by (simp add: x Let_def plain_children_top)
    next
      case fin: False
      then show ?thesis using True cv a' Cons.IH[of ?c "Some cm"] by (simp add: x Let_def)
    qed
  next
    case False
    then have le: "?cv \<le> M" using b by (auto simp: max_def split: if_splits)
    then have nlt: "\<not> M < ?cv" by (simp add: not_less)
    have a': "max M ?cv = M" using le by (simp add: max_def)
    show ?thesis using False nlt a' Cons.prems Cons.IH[of M bm] by (simp add: x Let_def)
  qed
qed

lemma ab_children_min_full:
  assumes "m \<noteq> NegInfinity"
  shows "ab_children False NegInfinity m M m bm ts = plain_children False M m bm ts"
  using assms
proof (induction ts arbitrary: m bm)
  case Nil
  show ?case by simp
next
  case (Cons x ts)
  obtain cm t where x: "x = (cm, t)" by (cases x)
  let ?c = "snd (plain_tree True t)"
  let ?cv = "snd (ab_tree True NegInfinity m t)"
  have "bounded NegInfinity m ?c ?cv" using ab_tree_bounded[of NegInfinity m True t] Cons.prems by simp
  then have b: "min ?c m \<le> ?cv" "?cv \<le> ?c" by (simp_all add: bounded_def)
  show ?case
  proof (cases "?c < m")
    case True
    then have cv: "?cv = ?c" using b by (auto simp: min_def split: if_splits)
    have b': "min ?c m = ?c" using True by (auto simp: min_def)
    show ?thesis
    proof (cases "?c = NegInfinity")
      case inf: True
      then show ?thesis using True cv b' by (simp add: x Let_def plain_children_bottom)
    next
      case fin: False
      then show ?thesis using True cv b' Cons.IH[of ?c "Some cm"] by (simp add: x Let_def)
    qed
  next
    case False
    then have le: "m \<le> ?cv" using b by (auto simp: min_def split: if_splits)
    then have nlt: "\<not> ?cv < m" by (simp add: not_less)
    have b': "min ?cv m = m" using le by (simp add: min_def)
    show ?thesis using False nlt b' Cons.prems Cons.IH[of m bm] by (simp add: x Let_def)
  qed
qed

lemma ab_tree_full: "ab_tree mx NegInfinity Infinity t = plain_tree mx t"
proof (cases t)
  case (Node s ts)
  show ?thesis
  proof (cases mx)
    case True
    then show ?thesis
      using ab_children_max_full[of NegInfinity Infinity None ts] by (simp add: Node)
  next
    case False
    then show ?thesis
      using ab_children_min_full[of Infinity NegInfinity None ts] by (simp add: Node)
  qed
qed

section \<open>The search on the rules engine\<close>

lemma minimax_for_Cons:
  assumes "move E (chessEngine this) (San n) = (Some cm, e1)"
    and "evaluateBoard K h (this\<lparr>chessEngine := e1\<rparr>) cm sum0 = Some newSum"
    and "minimax K E h d newSum (\<not> mx) a b (this\<lparr>chessEngine := e1\<rparr>) = Some ((uu, cv), this2)"
  shows "minimax_for K E h d sum0 mx a b M m bm (n # rest) this =
     (if mx then
        (if b \<le> max a cv
         then Some ((if M < cv then Some cm else bm, if M < cv then cv else M),
                    this2\<lparr>chessEngine := undo E (chessEngine this2)\<rparr>)
         else minimax_for K E h d sum0 mx (max a cv) b (if M < cv then cv else M) m
                (if M < cv then Some cm else bm) rest (this2\<lparr>chessEngine := undo E (chessEngine this2)\<rparr>))
      else
        (if min cv b \<le> a
         then Some ((if cv < m then Some cm else bm, if cv < m then cv else m),
                    this2\<lparr>chessEngine := undo E (chessEngine this2)\<rparr>)
         else minimax_for K E h d sum0 mx a (min cv b) M (if cv < m then cv else m)
                (if cv < m then Some cm else bm) rest (this2\<lparr>chessEngine := undo E (chessEngine this2)\<rparr>)))"
  using assms by (simp add: Let_def loop_exit_def)

lemma minimax_for_Cons_Some:
  assumes "minimax_for K E h d sum0 mx a b M m bm (n # rest) this = Some res"
  shows "\<exists>cm e1 newSum uu cv this2.
      move E (chessEngine this) (San n) = (Some cm, e1)
    \<and> evaluateBoard K h (this\<lparr>chessEngine := e1\<rparr>) cm sum0 = Some newSum
    \<and> minimax K E h d newSum (\<not> mx) a b (this\<lparr>chessEngine := e1\<rparr>) = Some ((uu, cv), this2)"
proof -
  obtain r e1 where mv: "move E (chessEngine this) (San n) = (r, e1)"
    by (cases "move E (chessEngine this) (San n)")
  show ?thesis
  proof (cases r)
    case None
    then show ?thesis using assms mv by simp
  next
    case (Some cm)
    show ?thesis
    proof (cases "evaluateBoard K h (this\<lparr>chessEngine := e1\<rparr>) cm sum0")
      case None
      then show ?thesis using assms mv Some by simp
    next
      case ev: (Some newSum)
      show ?thesis
      proof (cases "minimax K E h d newSum (\<not> mx) a b (this\<lparr>chessEngine := e1\<rparr>)")
        case None
        then show ?thesis using assms mv Some ev by simp
      next
        case ch: (Some x)
        obtain uu cv this2 where "x = ((uu, cv), this2)" by (cases x) auto
        then show ?thesis using mv Some ev ch by simp
      qed
    qed
  qed
qed

lemma minimax_for_restores:
  assumes contract: "undo_inverts_move E"
    and child: "\<And>sum0 mx a b this r this'.
       minimax K E h d sum0 mx a b this = Some (r, this') \<Longrightarrow> this' = this"
    and "set ns \<subseteq> set (moves E (chessEngine this))"
    and "minimax_for K E h d sum0 mx a b M m bm ns this = Some (r, this')"
  shows "this' = this"
  using assms(3,4)
proof (induction ns arbitrary: a b M m bm)
  case Nil
  then show ?case by (simp add: loop_exit_def split: if_splits)
next
  case (Cons n rest)
  from minimax_for_Cons_Some[OF Cons.prems(2)] obtain cm e1 newSum uu cv this2 where s:
    "move E (chessEngine this) (San n) = (Some cm, e1)"
    "evaluateBoard K h (this\<lparr>chessEngine := e1\<rparr>) cm sum0 = Some newSum"
    "minimax K E h d newSum (\<not> mx) a b (this\<lparr>chessEngine := e1\<rparr>) = Some ((uu, cv), this2)"
    by blast
  have this2: "this2 = this\<lparr>chessEngine := e1\<rparr>" using child[OF s(3)] .
  have "n \<in> set (moves E (chessEngine this))" using Cons.prems(1) by simp
  then have "undo E e1 = chessEngine this" using contract s(1) by (auto simp: undo_inverts_move_def)
  then have this3: "this2\<lparr>chessEngine := undo E (chessEngine this2)\<rparr> = this" by (simp add: this2)
  have rest: "set rest \<subseteq> set (moves E (chessEngine this))" using Cons.prems(1) by simp
  note eq = Cons.prems(2)[unfolded minimax_for_Cons[OF s] this3]
  show ?case
  proof (cases mx)
    case True
    show ?thesis
    proof (cases "b \<le> max a cv")
      case ex: True
      then show ?thesis using eq True by simp
    next
      case go: False
      then show ?thesis using eq True Cons.IH[OF rest] by simp
    qed
  next
    case False
    show ?thesis
    proof (cases "min cv b \<le> a")
      case ex: True
      then show ?thesis using eq False by simp
    next
      case go: False
      then show ?thesis using eq False Cons.IH[OF rest] by simp
    qed
  qed
qed

lemma minimax_restores:
  assumes "undo_inverts_move E"
    and "minimax K E h d sum0 mx a b this = Some (r, this')"
  shows "this' = this"
  using assms(2)
proof (induction d arbitrary: sum0 mx a b this r this')
  case 0
  then show ?case by simp
next
  case (Suc d)
  show ?case
  proof (cases "moves E (chessEngine this) = []")
    case True
    then show ?thesis using Suc.prems by simp
  next
    case False
    then have "minimax_for K E h d sum0 mx a b NegInfinity Infinity None
        (moves E (chessEngine this)) this = Some (r, this')"
      using Suc.prems by simp
    from minimax_for_restores[OF assms(1) Suc.IH subset_refl this] show ?thesis .
  qed
qed

lemma evaluates_chessEngine [simp]:
  "evaluates K h (this\<lparr>chessEngine := e\<rparr>) = evaluates K h this"
  by (simp add: evaluates_def)

lemma tree_of_Suc:
  "tree_of K E h (Suc d) sum0 this =
     Node sum0 (concat (map (child_of K E h d sum0 this) (moves E (chessEngine this))))"
  by (simp add: child_of_def[abs_def])

lemma legal_step:
  assumes "engine_ok E" and "evaluates K h this" and "n \<in> set (moves E (chessEngine this))"
  shows "\<exists>cm e1 newSum. move E (chessEngine this) (San n) = (Some cm, e1)
      \<and> undo E e1 = chessEngine this
      \<and> evaluateBoard K h (this\<lparr>chessEngine := e1\<rparr>) cm sum0 = Some newSum
      \<and> child_of K E h d sum0 this n = [(cm, tree_of K E h d newSum (this\<lparr>chessEngine := e1\<rparr>))]"
proof -
  obtain cm e1 where m: "move E (chessEngine this) (San n) = (Some cm, e1)" "undo E e1 = chessEngine this"
    using assms(1,3) unfolding engine_ok_def by blast
  obtain newSum where e: "evaluateBoard K h this cm sum0 = Some newSum"
    using assms(2) unfolding evaluates_def by blast
  show ?thesis using m e by (simp add: child_of_def)
qed

lemma minimax_for_tree:
  assumes ok: "engine_ok E" and ev: "evaluates K h this"
    and child: "\<And>sum0 mx a b e. minimax K E h d sum0 mx a b (this\<lparr>chessEngine := e\<rparr>) =
        Some (ab_tree mx a b (tree_of K E h d sum0 (this\<lparr>chessEngine := e\<rparr>)), this\<lparr>chessEngine := e\<rparr>)"
    and "set ns \<subseteq> set (moves E (chessEngine this))"
  shows "minimax_for K E h d sum0 mx a b M m bm ns this =
     Some (ab_children mx a b M m bm (concat (map (child_of K E h d sum0 this) ns)), this)"
  using assms(4)
proof (induction ns arbitrary: a b M m bm)
  case Nil
  show ?case by (simp add: loop_exit_def)
next
  case (Cons n rest)
  have "n \<in> set (moves E (chessEngine this))" using Cons.prems by simp
  from legal_step[OF ok ev this, of sum0 d] obtain cm e1 newSum where s:
    "move E (chessEngine this) (San n) = (Some cm, e1)" "undo E e1 = chessEngine this"
    "evaluateBoard K h (this\<lparr>chessEngine := e1\<rparr>) cm sum0 = Some newSum"
    "child_of K E h d sum0 this n = [(cm, tree_of K E h d newSum (this\<lparr>chessEngine := e1\<rparr>))]"
    by blast
  let ?this1 = "this\<lparr>chessEngine := e1\<rparr>"
  let ?t = "tree_of K E h d newSum ?this1"
  obtain uu cv where r: "ab_tree (\<not> mx) a b ?t = (uu, cv)" by (cases "ab_tree (\<not> mx) a b ?t")
  have c: "minimax K E h d newSum (\<not> mx) a b ?this1 = Some ((uu, cv), ?this1)"
    using child[of newSum "\<not> mx" a b e1] r by simp
  have this3: "?this1\<lparr>chessEngine := undo E (chessEngine ?this1)\<rparr> = this" using s(2) by simp
  have rest: "set rest \<subseteq> set (moves E (chessEngine this))" using Cons.prems by simp
  have kids: "concat (map (child_of K E h d sum0 this) (n # rest))
      = (cm, ?t) # concat (map (child_of K E h d sum0 this) rest)"
    by (simp add: s(4))
  show ?case
  proof (cases mx)
    case True
    have IH: "\<And>a b M m bm. minimax_for K E h d sum0 True a b M m bm rest this =
        Some (ab_children True a b M m bm (concat (map (child_of K E h d sum0 this) rest)), this)"
      using Cons.IH[OF rest] True by simp
    show ?thesis
      unfolding minimax_for_Cons[OF s(1,3) c] this3 kids
      using r True by (simp add: IH Let_def)
  next
    case False
    have IH: "\<And>a b M m bm. minimax_for K E h d sum0 False a b M m bm rest this =
        Some (ab_children False a b M m bm (concat (map (child_of K E h d sum0 this) rest)), this)"
      using Cons.IH[OF rest] False by simp
    show ?thesis
      unfolding minimax_for_Cons[OF s(1,3) c] this3 kids
      using r False by (simp add: IH Let_def)
  qed
qed

lemma children_empty_iff:
  assumes "engine_ok E" and "evaluates K h this"
  shows "(concat (map (child_of K E h d sum0 this) (moves E (chessEngine this))) = [])
       = (moves E (chessEngine this) = [])"
proof (cases "moves E (chessEngine this)")
  case Nil
  then show ?thesis by simp
next
  case (Cons n rest)
  then have "n \<in> set (moves E (chessEngine this))" by simp
  from legal_step[OF assms this, of sum0 d] show ?thesis using Cons by auto
qed

lemma minimax_tree:
  assumes ok: "engine_ok E" and ev: "evaluates K h this"
  shows "minimax K E h d sum0 mx a b this = Some (ab_tree mx a b (tree_of K E h d sum0 this), this)"
  using ev
proof (induction d arbitrary: sum0 mx a b this)
  case 0
  show ?case by simp
next
  case (Suc d)
  have child: "\<And>sum0 mx a b e. minimax K E h d sum0 mx a b (this\<lparr>chessEngine := e\<rparr>) =
        Some (ab_tree mx a b (tree_of K E h d sum0 (this\<lparr>chessEngine := e\<rparr>)), this\<lparr>chessEngine := e\<rparr>)"
    using Suc.IH Suc.prems by simp
  show ?case
  proof (cases "moves E (chessEngine this) = []")
    case True
    then show ?thesis by simp
  next
    case False
    then have ne: "concat (map (child_of K E h d sum0 this) (moves E (chessEngine this))) \<noteq> []"
      using children_empty_iff[OF ok Suc.prems] by simp
    have "minimax K E h (Suc d) sum0 mx a b this =
        minimax_for K E h d sum0 mx a b NegInfinity Infinity None (moves E (chessEngine this)) this"
      using False by simp
    also have "\<dots> = Some (ab_children mx a b NegInfinity Infinity None
          (concat (map (child_of K E h d sum0 this) (moves E (chessEngine this)))), this)"
      by (rule minimax_for_tree[OF ok Suc.prems child subset_refl])
    also have "\<dots> = Some (ab_tree mx a b (tree_of K E h (Suc d) sum0 this), this)"
      unfolding tree_of_Suc by (simp only: ab_tree.simps ne if_False)
    finally show ?thesis .
  qed
qed

lemma plain_minimax_for_Cons:
  assumes "move E (chessEngine this) (San n) = (Some cm, e1)"
    and "evaluateBoard K h (this\<lparr>chessEngine := e1\<rparr>) cm sum0 = Some newSum"
    and "plain_minimax K E h d newSum (\<not> mx) (this\<lparr>chessEngine := e1\<rparr>) = Some ((uu, cv), this2)"
  shows "plain_minimax_for K E h d sum0 mx M m bm (n # rest) this =
     (if mx then
        plain_minimax_for K E h d sum0 mx (if M < cv then cv else M) m
          (if M < cv then Some cm else bm) rest (this2\<lparr>chessEngine := undo E (chessEngine this2)\<rparr>)
      else
        plain_minimax_for K E h d sum0 mx M (if cv < m then cv else m)
          (if cv < m then Some cm else bm) rest (this2\<lparr>chessEngine := undo E (chessEngine this2)\<rparr>))"
  using assms by (simp add: Let_def)

lemma plain_minimax_for_tree:
  assumes ok: "engine_ok E" and ev: "evaluates K h this"
    and child: "\<And>sum0 mx e. plain_minimax K E h d sum0 mx (this\<lparr>chessEngine := e\<rparr>) =
        Some (plain_tree mx (tree_of K E h d sum0 (this\<lparr>chessEngine := e\<rparr>)), this\<lparr>chessEngine := e\<rparr>)"
    and "set ns \<subseteq> set (moves E (chessEngine this))"
  shows "plain_minimax_for K E h d sum0 mx M m bm ns this =
     Some (plain_children mx M m bm (concat (map (child_of K E h d sum0 this) ns)), this)"
  using assms(4)
proof (induction ns arbitrary: M m bm)
  case Nil
  show ?case by (simp add: loop_exit_def)
next
  case (Cons n rest)
  have "n \<in> set (moves E (chessEngine this))" using Cons.prems by simp
  from legal_step[OF ok ev this, of sum0 d] obtain cm e1 newSum where s:
    "move E (chessEngine this) (San n) = (Some cm, e1)" "undo E e1 = chessEngine this"
    "evaluateBoard K h (this\<lparr>chessEngine := e1\<rparr>) cm sum0 = Some newSum"
    "child_of K E h d sum0 this n = [(cm, tree_of K E h d newSum (this\<lparr>chessEngine := e1\<rparr>))]"
    by blast
  let ?this1 = "this\<lparr>chessEngine := e1\<rparr>"
  let ?t = "tree_of K E h d newSum ?this1"
  obtain uu cv where r: "plain_tree (\<not> mx) ?t = (uu, cv)" by (cases "plain_tree (\<not> mx) ?t")
  have c: "plain_minimax K E h d newSum (\<not> mx) ?this1 = Some ((uu, cv), ?this1)"
    using child[of newSum "\<not> mx" e1] r by simp
  have this3: "?this1\<lparr>chessEngine := undo E (chessEngine ?this1)\<rparr> = this" using s(2) by simp
  have rest: "set rest \<subseteq> set (moves E (chessEngine this))" using Cons.prems by simp
  have kids: "concat (map (child_of K E h d sum0 this) (n # rest))
      = (cm, ?t) # concat (map (child_of K E h d sum0 this) rest)"
    by (simp add: s(4))
  show ?case
  proof (cases mx)
    case True
    have IH: "\<And>M m bm. plain_minimax_for K E h d sum0 True M m bm rest this =
        Some (plain_children True M m bm (concat (map (child_of K E h d sum0 this) rest)), this)"
      using Cons.IH[OF rest] True by simp
    show ?thesis
      unfolding plain_minimax_for_Cons[OF s(1,3) c] this3 kids
      using r True by (simp add: IH Let_def)
  next
    case False
    have IH: "\<And>M m bm. plain_minimax_for K E h d sum0 False M m bm rest this =
        Some (plain_children False M m bm (concat (map (child_of K E h d sum0 this) rest)), this)"
      using Cons.IH[OF rest] False by simp
    show ?thesis
      unfolding plain_minimax_for_Cons[OF s(1,3) c] this3 kids
      using r False by (simp add: IH Let_def)
  qed
qed

lemma plain_minimax_tree:
  assumes ok: "engine_ok E" and ev: "evaluates K h this"
  shows "plain_minimax K E h d sum0 mx this = Some (plain_tree mx (tree_of K E h d sum0 this), this)"
  using ev
proof (induction d arbitrary: sum0 mx this)
  case 0
  show ?case by simp
next
  case (Suc d)
  have child: "\<And>sum0 mx e. plain_minimax K E h d sum0 mx (this\<lparr>chessEngine := e\<rparr>) =
        Some (plain_tree mx (tree_of K E h d sum0 (this\<lparr>chessEngine := e\<rparr>)), this\<lparr>chessEngine := e\<rparr>)"
    using Suc.IH Suc.prems by simp
  show ?case
  proof (cases "moves E (chessEngine this) = []")
    case True
    then show ?thesis by simp
  next
    case False
    then have ne: "concat (map (child_of K E h d sum0 this) (moves E (chessEngine this))) \<noteq> []"
      using children_empty_iff[OF ok Suc.prems] by simp
    have "plain_minimax K E h (Suc d) sum0 mx this =
        plain_minimax_for K E h d sum0 mx NegInfinity Infinity None (moves E (chessEngine this)) this"
      using False by simp
    also have "\<dots> = Some (plain_children mx NegInfinity Infinity None
          (concat (map (child_of K E h d sum0 this) (moves E (chessEngine this)))), this)"
      by (rule plain_minimax_for_tree[OF ok Suc.prems child subset_refl])
    also have "\<dots> = Some (plain_tree mx (tree_of K E h (Suc d) sum0 this), this)"
      unfolding tree_of_Suc by (simp only: plain_tree.simps ne if_False)
    finally show ?thesis .
  qed
qed

lemma engine_ok_undo: "engine_ok E \<Longrightarrow> undo_inverts_move E"
  unfolding engine_ok_def undo_inverts_move_def by fastforce

lemma sample_engine_ok: "engine_ok sample_engine"
  by (simp add: engine_ok_def sample_engine_def)

lemma index3_total:
  assumes T: "tables_at h t = Some T"
    and wf: "\<And>p. \<exists>g. map_of T p = Some g \<and> length g = 8 \<and> list_all (\<lambda>r. length r = 8) g"
    and "row pos < 8" and "column pos < 8"
  shows "\<exists>v. index3 h (Some t) p pos = Some v"
proof -
  obtain g where g: "map_of T p = Some g" "length g = 8" "list_all (\<lambda>r. length r = 8) g"
    using wf by blast
  have r: "row pos < length g" using assms(3) g(2) by simp
  then have "length (g ! row pos) = 8" using g(3) by (simp add: list_all_length)
  then have c: "column pos < length (g ! row pos)" using assms(4) by simp
  have "pos = \<lparr>row = row pos, column = column pos\<rparr>" by simp
  then show ?thesis using index3_read[OF T g(1) r c] by metis
qed

lemma evaluates_well_formed:
  assumes "aiSquareTables this = Some ta" and "tables_at h ta = Some Ta"
    and "\<And>p. \<exists>g. map_of Ta p = Some g \<and> length g = 8 \<and> list_all (\<lambda>r. length r = 8) g"
    and "opponentSquareTables this = Some tb" and "tables_at h tb = Some Tb"
    and "\<And>p. \<exists>g. map_of Tb p = Some g \<and> length g = 8 \<and> list_all (\<lambda>r. length r = 8) g"
    and "\<And>s. row (getMatrixPosition K s) < 8 \<and> column (getMatrixPosition K s) < 8"
  shows "evaluates K h this"
proof -
  have ai: "\<And>p s. \<exists>v. getAiValueFromSquareTable h this p (getMatrixPosition K s) = Some v"
    using index3_total[OF assms(2,3)] assms(1,7) by (simp add: getAiValueFromSquareTable_def)
  have op: "\<And>p s. \<exists>v. getOpponentValueFromSquareTable h this p (getMatrixPosition K s) = Some v"
    using index3_total[OF assms(5,6)] assms(4,7) by (simp add: getOpponentValueFromSquareTable_def)
  show ?thesis
    unfolding evaluates_def
  proof (intro allI)
    fix mv :: Move and s :: number
    obtain a1 where a1: "getAiValueFromSquareTable h this (mv_piece mv) (getMatrixPosition K (mv_from mv)) = Some a1"
      using ai by blast
    obtain a2 where a2: "getAiValueFromSquareTable h this (mv_piece mv) (getMatrixPosition K (mv_to mv)) = Some a2"
      using ai by blast
    obtain a3 where a3: "getAiValueFromSquareTable h this Queen (getMatrixPosition K (mv_from mv)) = Some a3"
      using ai by blast
    obtain o1 where o1: "getOpponentValueFromSquareTable h this (mv_piece mv) (getMatrixPosition K (mv_from mv)) = Some o1"
      using op by blast
    obtain o2 where o2: "getOpponentValueFromSquareTable h this (mv_piece mv) (getMatrixPosition K (mv_to mv)) = Some o2"
      using op by blast
    show "evaluateBoard K h this mv s \<noteq> None"
    proof (cases "mv_captured mv")
      case None
      then show ?thesis using a1 a2 a3 o1 o2 by (simp add: evaluateBoard_def Let_def)
    next
      case (Some cap)
      obtain a4 where a4: "getAiValueFromSquareTable h this cap (getMatrixPosition K (mv_to mv)) = Some a4"
        using ai by blast
      obtain o4 where o4: "getOpponentValueFromSquareTable h this cap (getMatrixPosition K (mv_to mv)) = Some o4"
        using op by blast
      show ?thesis using Some a1 a2 a3 o1 o2 a4 o4 by (simp add: evaluateBoard_def Let_def)
    qed
  qed
qed

lemma sample_tables_well_formed:
  "\<exists>g. map_of sample_tables p = Some g \<and> length g = 8 \<and> list_all (\<lambda>r. length r = 8) g"
  by (cases p) (simp_all add: sample_tables_def)

lemma sample_reversed_well_formed:
  "\<exists>g. map_of (reversed_rows sample_tables) p = Some g \<and> length g = 8 \<and> list_all (\<lambda>r. length r = 8) g"
  by (cases p) (simp_all add: sample_tables_def reversed_rows_def)

lemma sample_positions_in_range:
  "row (getMatrixPosition sample_env s) < 8 \<and> column (getMatrixPosition sample_env s) < 8"
  by (cases s rule: sample_getMatrixPosition.cases) (simp_all add: sample_env_def)

lemma white_evaluates: "evaluates sample_env white_heap white_manager"
proof -
  obtain a b where "aiSquareTables white_manager = Some a" "tables_at white_heap a = Some sample_tables"
    "opponentSquareTables white_manager = Some b"
    "tables_at white_heap b = Some (reversed_rows sample_tables)"
    using white_init_eq by auto
  then show ?thesis
    using evaluates_well_formed[of white_manager a white_heap sample_tables b
        "reversed_rows sample_tables" sample_env]
      sample_tables_well_formed sample_reversed_well_formed sample_positions_in_range
    by blast
qed

lemma sample_knight_grid:
  "map_of sample_tables Knight = Some
        [[-66, -53, -75, -75, -10, -55, -58, -70],
         [-3, -6, 100, -36, 4, 62, -4, -14],
         [10, 67, 1, 74, 73, 27, 62, -2],
         [24, 24, 45, 37, 33, 41, 25, 17],
         [-1, 5, 31, 21, 22, 35, 2, 0],
         [-18, 10, 14, 22, 18, 15, 11, -14],
         [-23, -15, 2, 0, 2, 0, -23, -20],
         [-74, -23, -26, -24, -19, -35, -22, -69]]"
  by (simp add: sample_tables_def)

text \<open>
  The sample search, worked out: the tree of depth 3 from the White session, and what
  \<^verbatim>\<open>minimax\<close> returns on it. After e4 has given 167, the first reply to d4 gives 141 and
  the second reply to d4 is pruned.
\<close>

lemma white_ai_grid:
  assumes "map_of sample_tables p = Some g" and "r < 8" and "c < 8"
  shows "getAiValueFromSquareTable white_heap white_manager p \<lparr>row = r, column = c\<rparr>
      = Some (g ! r ! c)"
proof -
  obtain g' where g': "map_of sample_tables p = Some g'" "length g' = 8" "list_all (\<lambda>r. length r = 8) g'"
    using sample_tables_well_formed by blast
  then have g: "length g = 8" "list_all (\<lambda>r. length r = 8) g" using assms(1) by auto
  then have "length (g ! r) = 8" using assms(2) by (simp add: list_all_length)
  then show ?thesis
    using white_ai_read[OF assms(1), of r c] assms(2,3) g(1) by simp
qed

lemmas white_ai_pawn = white_ai_grid[OF sample_pawn_grid]
lemmas white_ai_knight = white_ai_grid[OF sample_knight_grid]

lemma sample_score:
  "evaluateBoard sample_env white_heap white_manager (sample_move_of [] ''e4'') (Num x) = Some (Num (x + 42))"
  "evaluateBoard sample_env white_heap white_manager (sample_move_of [] ''d4'') (Num x) = Some (Num (x + 46))"
  "evaluateBoard sample_env white_heap white_manager (sample_move_of [a] ''d5'') (Num x) = Some (Num (x + 58))"
  "evaluateBoard sample_env white_heap white_manager (sample_move_of [a] ''e5'') (Num x) = Some (Num (x + 88))"
  "evaluateBoard sample_env white_heap white_manager (sample_move_of [a, b] ''exd5'') (Num x) = Some (Num (x + 124))"
  "evaluateBoard sample_env white_heap white_manager (sample_move_of [a, b] ''e5'') (Num x) = Some (Num (x + 8))"
  "evaluateBoard sample_env white_heap white_manager (sample_move_of [a, b] ''Nf3'') (Num x) = Some (Num (x + 37))"
  "evaluateBoard sample_env white_heap white_manager (sample_move_of [a, b] ''Nc3'') (Num x) = Some (Num (x + 37))"
  by (simp_all add: sample_move_of_def mk_move_def evaluateBoard_def white_color white_ai_pawn
      white_ai_knight sample_env_def num_sub_def)

lemma sample_leaf [simp]:
  "tree_of sample_env sample_engine white_heap 0 s this = Node s []"
  by simp

lemma sample_moves_at:
  "moves sample_engine (chessEngine (white_manager\<lparr>chessEngine := e\<rparr>)) = sample_moves e"
  by (simp add: sample_engine_def)

lemma sample_engine_ops:
  "moves sample_engine e = sample_moves e" "move sample_engine e a = sample_move e a"
  by (simp_all add: sample_engine_def)

lemma sample_tree_ply2:
  "tree_of sample_env sample_engine white_heap (Suc 0) (Num x) (white_manager\<lparr>chessEngine := [''d5'', ''e4'']\<rparr>)
     = Node (Num x) [(sample_move_of [''d5'', ''e4''] ''exd5'', Node (Num (x + 124)) []),
                     (sample_move_of [''d5'', ''e4''] ''e5'', Node (Num (x + 8)) [])]"
  "tree_of sample_env sample_engine white_heap (Suc 0) (Num x) (white_manager\<lparr>chessEngine := [''e5'', ''e4'']\<rparr>)
     = Node (Num x) [(sample_move_of [''e5'', ''e4''] ''Nf3'', Node (Num (x + 37)) []),
                     (sample_move_of [''e5'', ''e4''] ''Nc3'', Node (Num (x + 37)) [])]"
  "tree_of sample_env sample_engine white_heap (Suc 0) (Num x) (white_manager\<lparr>chessEngine := [''d5'', ''d4'']\<rparr>)
     = Node (Num x) [(sample_move_of [''d5'', ''d4''] ''Nf3'', Node (Num (x + 37)) []),
                     (sample_move_of [''d5'', ''d4''] ''Nc3'', Node (Num (x + 37)) [])]"
  "tree_of sample_env sample_engine white_heap (Suc 0) (Num x) (white_manager\<lparr>chessEngine := [''e5'', ''d4'']\<rparr>)
     = Node (Num x) [(sample_move_of [''e5'', ''d4''] ''Nf3'', Node (Num (x + 37)) []),
                     (sample_move_of [''e5'', ''d4''] ''Nc3'', Node (Num (x + 37)) [])]"
  unfolding tree_of_Suc sample_moves_at
  by (simp_all add: sample_moves_def child_of_def sample_engine_ops sample_score)

lemma sample_tree_ply1:
  "tree_of sample_env sample_engine white_heap (Suc (Suc 0)) (Num x) (white_manager\<lparr>chessEngine := [''e4'']\<rparr>)
     = Node (Num x)
         [(sample_move_of [''e4''] ''d5'',
             Node (Num (x + 58)) [(sample_move_of [''d5'', ''e4''] ''exd5'', Node (Num (x + 58 + 124)) []),
                     (sample_move_of [''d5'', ''e4''] ''e5'', Node (Num (x + 58 + 8)) [])]),
          (sample_move_of [''e4''] ''e5'',
             Node (Num (x + 88)) [(sample_move_of [''e5'', ''e4''] ''Nf3'', Node (Num (x + 88 + 37)) []),
                     (sample_move_of [''e5'', ''e4''] ''Nc3'', Node (Num (x + 88 + 37)) [])])]"
  "tree_of sample_env sample_engine white_heap (Suc (Suc 0)) (Num x) (white_manager\<lparr>chessEngine := [''d4'']\<rparr>)
     = Node (Num x)
         [(sample_move_of [''d4''] ''d5'',
             Node (Num (x + 58)) [(sample_move_of [''d5'', ''d4''] ''Nf3'', Node (Num (x + 58 + 37)) []),
                     (sample_move_of [''d5'', ''d4''] ''Nc3'', Node (Num (x + 58 + 37)) [])]),
          (sample_move_of [''d4''] ''e5'',
             Node (Num (x + 88)) [(sample_move_of [''e5'', ''d4''] ''Nf3'', Node (Num (x + 88 + 37)) []),
                     (sample_move_of [''e5'', ''d4''] ''Nc3'', Node (Num (x + 88 + 37)) [])])]"
  unfolding tree_of_Suc[of _ _ _ "Suc 0"] sample_moves_at
  by (simp_all add: sample_moves_def child_of_def sample_engine_ops sample_score sample_tree_ply2
      del: tree_of.simps)

lemma sample_tree:
  "tree_of sample_env sample_engine white_heap 3 (Num 0) white_manager
     = Node (Num 0)
        [(sample_move_of [] ''e4'',
          Node (Num 42)
           [(sample_move_of [''e4''] ''d5'',
             Node (Num 100) [(sample_move_of [''d5'', ''e4''] ''exd5'', Node (Num 224) []),
                     (sample_move_of [''d5'', ''e4''] ''e5'', Node (Num 108) [])]),
            (sample_move_of [''e4''] ''e5'',
             Node (Num 130) [(sample_move_of [''e5'', ''e4''] ''Nf3'', Node (Num 167) []),
                     (sample_move_of [''e5'', ''e4''] ''Nc3'', Node (Num 167) [])])]),
         (sample_move_of [] ''d4'',
          Node (Num 46)
           [(sample_move_of [''d4''] ''d5'',
             Node (Num 104) [(sample_move_of [''d5'', ''d4''] ''Nf3'', Node (Num 141) []),
                     (sample_move_of [''d5'', ''d4''] ''Nc3'', Node (Num 141) [])]),
            (sample_move_of [''d4''] ''e5'',
             Node (Num 134) [(sample_move_of [''e5'', ''d4''] ''Nf3'', Node (Num 171) []),
                     (sample_move_of [''e5'', ''d4''] ''Nc3'', Node (Num 171) [])])])]"
proof -
  have e: "chessEngine white_manager = []" using white_init_eq by auto
  have "tree_of sample_env sample_engine white_heap (Suc (Suc (Suc 0))) (Num 0) white_manager
     = Node (Num 0)
        [(sample_move_of [] ''e4'',
          tree_of sample_env sample_engine white_heap (Suc (Suc 0)) (Num 42) (white_manager\<lparr>chessEngine := [''e4'']\<rparr>)),
         (sample_move_of [] ''d4'',
          tree_of sample_env sample_engine white_heap (Suc (Suc 0)) (Num 46) (white_manager\<lparr>chessEngine := [''d4'']\<rparr>))]"
    unfolding tree_of_Suc[of _ _ _ "Suc (Suc 0)"]
    by (simp add: e sample_moves_def child_of_def sample_engine_ops sample_score del: tree_of.simps)
  then show ?thesis
    by (simp add: numeral_3_eq_3 sample_tree_ply1 del: tree_of.simps)
qed

lemma white_search_value:
  "minimax sample_env sample_engine white_heap 3 (Num 0) True NegInfinity Infinity white_manager
     = Some ((Some white_e4, Num 167), white_manager)"
  unfolding minimax_tree[OF sample_engine_ok white_evaluates] sample_tree
  by (simp add: Let_def sample_move_of_def white_e4_def)

text \<open>
  The last subtree is never looked at: whatever stands in its place, the result is the
  same.
\<close>

lemma sample_search_prunes:
  "ab_tree True NegInfinity Infinity
     (Node (Num 0)
        [(sample_move_of [] ''e4'',
          Node (Num 42)
           [(sample_move_of [''e4''] ''d5'',
             Node (Num 100) [(sample_move_of [''d5'', ''e4''] ''exd5'', Node (Num 224) []),
                     (sample_move_of [''d5'', ''e4''] ''e5'', Node (Num 108) [])]),
            (sample_move_of [''e4''] ''e5'',
             Node (Num 130) [(sample_move_of [''e5'', ''e4''] ''Nf3'', Node (Num 167) []),
                     (sample_move_of [''e5'', ''e4''] ''Nc3'', Node (Num 167) [])])]),
         (sample_move_of [] ''d4'',
          Node (Num 46)
           [(sample_move_of [''d4''] ''d5'',
             Node (Num 104) [(sample_move_of [''d5'', ''d4''] ''Nf3'', Node (Num 141) []),
                     (sample_move_of [''d5'', ''d4''] ''Nc3'', Node (Num 141) [])]),
            (cm, t)])])
   = (Some (sample_move_of [] ''e4''), Num 167)"
  by (simp add: Let_def)

text \<open>
  Claim C5. On an engine that plays every move it lists and whose \<^verbatim>\<open>undo\<close> takes a
  played move back, and a session on which the evaluator returns a score for every move:
  for every position, every starting score, either player to move and every depth (so
  for every depth up to 3), \<^verbatim>\<open>minimax\<close> called with the bounds -Infinity and +Infinity
  returns, and returns what plain minimax returns on the same tree, the same best move
  and the same value, with the engine as it was.
\<close>

theorem C5_alpha_beta_equivalence:
  assumes "engine_ok E" and "evaluates K h this"
  shows "minimax K E h d sum0 mx NegInfinity Infinity this = plain_minimax K E h d sum0 mx this
       \<and> (\<exists>bestMove v. minimax K E h d sum0 mx NegInfinity Infinity this = Some ((bestMove, v), this))"
proof -
  have a: "minimax K E h d sum0 mx NegInfinity Infinity this
      = Some (ab_tree mx NegInfinity Infinity (tree_of K E h d sum0 this), this)"
    by (rule minimax_tree[OF assms])
  have p: "plain_minimax K E h d sum0 mx this = Some (plain_tree mx (tree_of K E h d sum0 this), this)"
    by (rule plain_minimax_tree[OF assms])
  obtain bm v where "plain_tree mx (tree_of K E h d sum0 this) = (bm, v)"
    by (cases "plain_tree mx (tree_of K E h d sum0 this)")
  then show ?thesis using a p by (simp add: ab_tree_full)
qed

text \<open>
  The sample engine and the White sample session meet the hypotheses of C5; both searches
  of depth 3 return e4 with the value 167.
\<close>

theorem C5_witness:
  "engine_ok sample_engine \<and> evaluates sample_env white_heap white_manager
   \<and> minimax sample_env sample_engine white_heap 3 (Num 0) True NegInfinity Infinity white_manager
       = plain_minimax sample_env sample_engine white_heap 3 (Num 0) True white_manager
   \<and> plain_minimax sample_env sample_engine white_heap 3 (Num 0) True white_manager
       = Some ((Some white_e4, Num 167), white_manager)"
  using C5_alpha_beta_equivalence[OF sample_engine_ok white_evaluates, of 3 "Num 0" True]
    sample_engine_ok white_evaluates white_search_value
  by simp

text \<open>
  Claim C6. On an engine whose \<^verbatim>\<open>undo\<close> takes a played move back, every call of
  \<^verbatim>\<open>minimax\<close> that returns normally, whatever its depth, bounds and player, returns with
  the manager, and so the engine's position, as they were before the call; the early
  exits of the loop on \<^verbatim>\<open>beta <= alpha\<close> are among the returns covered.
\<close>

theorem C6_search_restores_engine:
  assumes "undo_inverts_move E"
    and "minimax K E h d sum0 mx alpha beta this = Some (r, this')"
  shows "this' = this \<and> chessEngine this' = chessEngine this"
  using minimax_restores[OF assms] by simp

text \<open>
  On the sample: the search of depth 3 from the White session returns, one sibling
  pruned, with the session it started from.
\<close>

theorem C6_witness:
  "undo_inverts_move sample_engine
   \<and> minimax sample_env sample_engine white_heap 3 (Num 0) True NegInfinity Infinity white_manager
       = Some ((Some white_e4, Num 167), white_manager)"
  using C6_search_restores_engine[OF engine_ok_undo[OF sample_engine_ok] white_search_value]
    engine_ok_undo[OF sample_engine_ok] white_search_value
  by simp

lemma white_knight_values:
  "getAiValueFromSquareTable white_heap white_manager Knight \<lparr>row = 7, column = Suc 0\<rparr> = Some (- 23)"
  "getAiValueFromSquareTable white_heap white_manager Knight \<lparr>row = 5, column = 2\<rparr> = Some 14"
  "getAiValueFromSquareTable white_heap white_manager Knight \<lparr>row = 7, column = 6\<rparr> = Some (- 22)"
  "getAiValueFromSquareTable white_heap white_manager Knight \<lparr>row = 5, column = 5\<rparr> = Some 15"
  using white_ai_read[OF sample_knight_grid, of 7 "Suc 0"] white_ai_read[OF sample_knight_grid, of 5 2]
    white_ai_read[OF sample_knight_grid, of 7 6] white_ai_read[OF sample_knight_grid, of 5 5]
  by simp_all

lemma sample_knight_positions:
  "getMatrixPosition sample_env ''b1'' = \<lparr>row = 7, column = Suc 0\<rparr>"
  "getMatrixPosition sample_env ''c3'' = \<lparr>row = 5, column = 2\<rparr>"
  "getMatrixPosition sample_env ''g1'' = \<lparr>row = 7, column = 6\<rparr>"
  "getMatrixPosition sample_env ''f3'' = \<lparr>row = 5, column = 5\<rparr>"
  by (simp_all add: sample_env_def)

lemma white_tie_moves:
  "move sample_engine (chessEngine white_tie) (San ''Nf3'') = (Some white_Nf3, [''Nf3'', ''e5'', ''d4''])"
  "move sample_engine (chessEngine white_tie) (San ''Nc3'') = (Some white_Nc3, [''Nc3'', ''e5'', ''d4''])"
  "undo sample_engine [''Nf3'', ''e5'', ''d4''] = chessEngine white_tie"
  "undo sample_engine [''Nc3'', ''e5'', ''d4''] = chessEngine white_tie"
  by (simp_all add: white_tie_def sample_engine_def sample_moves_def sample_move_of_def
      white_Nf3_def white_Nc3_def)

lemma white_tie_scores:
  "evaluateBoard sample_env white_heap (white_tie\<lparr>chessEngine := e\<rparr>) white_Nf3 (Num 0) = Some (Num 37)"
  "evaluateBoard sample_env white_heap (white_tie\<lparr>chessEngine := e\<rparr>) white_Nc3 (Num 0) = Some (Num 37)"
proof -
  have "evaluateBoard sample_env white_heap white_manager white_Nf3 (Num 0) = Some (Num 37)"
    by (simp add: evaluateBoard_def white_Nf3_def mk_move_def
      white_color sample_knight_positions white_knight_values num_sub_def)
  then show "evaluateBoard sample_env white_heap (white_tie\<lparr>chessEngine := e\<rparr>) white_Nf3 (Num 0)
      = Some (Num 37)"
    by (simp add: white_tie_def)
  have "evaluateBoard sample_env white_heap white_manager white_Nc3 (Num 0) = Some (Num 37)"
    by (simp add: evaluateBoard_def white_Nc3_def mk_move_def
      white_color sample_knight_positions white_knight_values num_sub_def)
  then show "evaluateBoard sample_env white_heap (white_tie\<lparr>chessEngine := e\<rparr>) white_Nc3 (Num 0)
      = Some (Num 37)"
    by (simp add: white_tie_def)
qed

lemma white_tie_second_child:
  "minimax_for sample_env sample_engine white_heap 0 (Num 0) True (Num 37) Infinity (Num 37) Infinity
      (Some white_Nf3) [''Nc3''] white_tie = Some ((Some white_Nf3, Num 37), white_tie)"
proof -
  have c: "minimax sample_env sample_engine white_heap 0 (Num 37) (\<not> True) (Num 37) Infinity
      (white_tie\<lparr>chessEngine := [''Nc3'', ''e5'', ''d4'']\<rparr>)
      = Some ((None, Num 37), white_tie\<lparr>chessEngine := [''Nc3'', ''e5'', ''d4'']\<rparr>)"
    by simp
  show ?thesis
    unfolding minimax_for_Cons[OF white_tie_moves(2) white_tie_scores(2) c]
    using white_tie_moves(4) by (simp add: loop_exit_def)
qed

section \<open>The move a node returns\<close>

text \<open>One turn of the loop, for the list of children looked at.\<close>

lemma visited_Cons:
  assumes "move E (chessEngine this) (San n) = (Some cm, e1)"
    and "evaluateBoard K h (this\<lparr>chessEngine := e1\<rparr>) cm sum0 = Some newSum"
    and "minimax K E h d newSum (\<not> mx) a b (this\<lparr>chessEngine := e1\<rparr>) = Some ((uu, cv), this2)"
  shows "visited K E h d sum0 mx a b (n # rest) this =
     (if mx then
        (if b \<le> max a cv then Some [(n, cm, cv)]
         else map_option ((#) (n, cm, cv))
                (visited K E h d sum0 mx (max a cv) b rest (this2\<lparr>chessEngine := undo E (chessEngine this2)\<rparr>)))
      else
        (if min cv b \<le> a then Some [(n, cm, cv)]
         else map_option ((#) (n, cm, cv))
                (visited K E h d sum0 mx a (min cv b) rest (this2\<lparr>chessEngine := undo E (chessEngine this2)\<rparr>))))"
  using assms by (simp add: Let_def)

text \<open>
  The loop of a node, followed from any point of it with \<^verbatim>\<open>bestMove\<close> and \<^verbatim>\<open>maxVal\<close> (at
  a minimising node \<^verbatim>\<open>minVal\<close>) as they stand: either no remaining child improves
  strictly and the loop ends with the same move and value, or it ends with the move and
  the value of the first remaining child that reaches the greatest (least) value, every
  child before it being strictly worse.
\<close>

lemma minimax_for_first_max:
  assumes "minimax_for K E h d sum0 True alpha beta maxVal minVal bestMove ns this = Some ((bm', v), this')"
  shows "\<exists>vs. visited K E h d sum0 True alpha beta ns this = Some vs
     \<and> map fst vs = take (length vs) ns \<and> (ns \<noteq> [] \<longrightarrow> vs \<noteq> [])
     \<and> ((bm' = bestMove \<and> v = maxVal \<and> (\<forall>x\<in>set vs. snd (snd x) \<le> maxVal))
        \<or> (maxVal < v \<and> (\<exists>pre n m post. vs = pre @ (n, m, v) # post \<and> bm' = Some m
              \<and> (\<forall>x\<in>set pre. snd (snd x) < v) \<and> (\<forall>x\<in>set post. snd (snd x) \<le> v))))"
  using assms
proof (induction ns arbitrary: alpha maxVal bestMove this)
  case Nil
  then show ?case by (simp add: loop_exit_def)
next
  case (Cons n rest)
  from minimax_for_Cons_Some[OF Cons.prems] obtain cm e1 newSum uu cv this2 where s:
    "move E (chessEngine this) (San n) = (Some cm, e1)"
    "evaluateBoard K h (this\<lparr>chessEngine := e1\<rparr>) cm sum0 = Some newSum"
    "minimax K E h d newSum (\<not> True) alpha beta (this\<lparr>chessEngine := e1\<rparr>) = Some ((uu, cv), this2)"
    by blast
  note eq = Cons.prems[unfolded minimax_for_Cons[OF s]]
  note vis = visited_Cons[OF s, of rest]
  show ?case
  proof (cases "beta \<le> max alpha cv")
    case ex: True
    have v1: "visited K E h d sum0 True alpha beta (n # rest) this = Some [(n, cm, cv)]"
      using vis ex by simp
    show ?thesis
    proof (cases "maxVal < cv")
      case True
      then have r: "bm' = Some cm" "v = cv" using eq ex by simp_all
      have "\<exists>pre n' m post. [(n, cm, cv)] = pre @ (n', m, v) # post \<and> bm' = Some m
          \<and> (\<forall>x\<in>set pre. snd (snd x) < v) \<and> (\<forall>x\<in>set post. snd (snd x) \<le> v)"
        using r by (intro exI[of _ "[]"] exI[of _ n] exI[of _ cm]) simp
      then show ?thesis using v1 True r(2) by (intro exI[of _ "[(n, cm, cv)]"]) simp
    next
      case False
      then have "bm' = bestMove" "v = maxVal" using eq ex by simp_all
      then show ?thesis using v1 False by (intro exI[of _ "[(n, cm, cv)]"]) simp
    qed
  next
    case go: False
    let ?M = "if maxVal < cv then cv else maxVal"
    let ?bm = "if maxVal < cv then Some cm else bestMove"
    let ?this3 = "this2\<lparr>chessEngine := undo E (chessEngine this2)\<rparr>"
    have "minimax_for K E h d sum0 True (max alpha cv) beta ?M minVal ?bm rest ?this3
        = Some ((bm', v), this')"
      using eq go by simp
    from Cons.IH[OF this] obtain vs where vs:
      "visited K E h d sum0 True (max alpha cv) beta rest ?this3 = Some vs"
      "map fst vs = take (length vs) rest"
      "(bm' = ?bm \<and> v = ?M \<and> (\<forall>x\<in>set vs. snd (snd x) \<le> ?M))
        \<or> (?M < v \<and> (\<exists>pre n m post. vs = pre @ (n, m, v) # post \<and> bm' = Some m
              \<and> (\<forall>x\<in>set pre. snd (snd x) < v) \<and> (\<forall>x\<in>set post. snd (snd x) \<le> v)))"
      by blast
    have v1: "visited K E h d sum0 True alpha beta (n # rest) this = Some ((n, cm, cv) # vs)"
      using vis go vs(1) by simp
    have m1: "map fst ((n, cm, cv) # vs) = take (length ((n, cm, cv) # vs)) (n # rest)"
      using vs(2) by simp
    have "(bm' = bestMove \<and> v = maxVal \<and> (\<forall>x\<in>set ((n, cm, cv) # vs). snd (snd x) \<le> maxVal))
        \<or> (maxVal < v \<and> (\<exists>pre n' m post. (n, cm, cv) # vs = pre @ (n', m, v) # post \<and> bm' = Some m
              \<and> (\<forall>x\<in>set pre. snd (snd x) < v) \<and> (\<forall>x\<in>set post. snd (snd x) \<le> v)))"
      using vs(3)
    proof (elim disjE conjE exE)
      assume a: "bm' = ?bm" "v = ?M" "\<forall>x\<in>set vs. snd (snd x) \<le> ?M"
      show ?thesis
      proof (cases "maxVal < cv")
        case True
        then have "\<exists>pre n' m post. (n, cm, cv) # vs = pre @ (n', m, v) # post \<and> bm' = Some m
            \<and> (\<forall>x\<in>set pre. snd (snd x) < v) \<and> (\<forall>x\<in>set post. snd (snd x) \<le> v)"
          using a by (intro exI[of _ "[]"] exI[of _ n] exI[of _ cm] exI[of _ vs]) simp
        then show ?thesis using True a(2) by simp
      next
        case False
        then show ?thesis using a by simp
      qed
    next
      fix pre n' m post
      assume b: "?M < v" "vs = pre @ (n', m, v) # post" "bm' = Some m"
        "\<forall>x\<in>set pre. snd (snd x) < v" "\<forall>x\<in>set post. snd (snd x) \<le> v"
      have "cv < v" "maxVal < v" using b(1) by (auto split: if_splits)
      then have "\<exists>pre n' m post. (n, cm, cv) # vs = pre @ (n', m, v) # post \<and> bm' = Some m
          \<and> (\<forall>x\<in>set pre. snd (snd x) < v) \<and> (\<forall>x\<in>set post. snd (snd x) \<le> v)"
        using b by (intro exI[of _ "(n, cm, cv) # pre"] exI[of _ n'] exI[of _ m] exI[of _ post]) simp
      then show ?thesis using \<open>maxVal < v\<close> by simp
    qed
    then show ?thesis using v1 m1 by (intro exI[of _ "(n, cm, cv) # vs"]) simp
  qed
qed

lemma minimax_for_first_min:
  assumes "minimax_for K E h d sum0 False alpha beta maxVal minVal bestMove ns this = Some ((bm', v), this')"
  shows "\<exists>vs. visited K E h d sum0 False alpha beta ns this = Some vs
     \<and> map fst vs = take (length vs) ns \<and> (ns \<noteq> [] \<longrightarrow> vs \<noteq> [])
     \<and> ((bm' = bestMove \<and> v = minVal \<and> (\<forall>x\<in>set vs. minVal \<le> snd (snd x)))
        \<or> (v < minVal \<and> (\<exists>pre n m post. vs = pre @ (n, m, v) # post \<and> bm' = Some m
              \<and> (\<forall>x\<in>set pre. v < snd (snd x)) \<and> (\<forall>x\<in>set post. v \<le> snd (snd x)))))"
  using assms
proof (induction ns arbitrary: beta minVal bestMove this)
  case Nil
  then show ?case by (simp add: loop_exit_def)
next
  case (Cons n rest)
  from minimax_for_Cons_Some[OF Cons.prems] obtain cm e1 newSum uu cv this2 where s:
    "move E (chessEngine this) (San n) = (Some cm, e1)"
    "evaluateBoard K h (this\<lparr>chessEngine := e1\<rparr>) cm sum0 = Some newSum"
    "minimax K E h d newSum (\<not> False) alpha beta (this\<lparr>chessEngine := e1\<rparr>) = Some ((uu, cv), this2)"
    by blast
  note eq = Cons.prems[unfolded minimax_for_Cons[OF s]]
  note vis = visited_Cons[OF s, of rest]
  show ?case
  proof (cases "min cv beta \<le> alpha")
    case ex: True
    have v1: "visited K E h d sum0 False alpha beta (n # rest) this = Some [(n, cm, cv)]"
      using vis ex by simp
    show ?thesis
    proof (cases "cv < minVal")
      case True
      then have r: "bm' = Some cm" "v = cv" using eq ex by simp_all
      have "\<exists>pre n' m post. [(n, cm, cv)] = pre @ (n', m, v) # post \<and> bm' = Some m
          \<and> (\<forall>x\<in>set pre. v < snd (snd x)) \<and> (\<forall>x\<in>set post. v \<le> snd (snd x))"
        using r by (intro exI[of _ "[]"] exI[of _ n] exI[of _ cm]) simp
      then show ?thesis using v1 True r(2) by (intro exI[of _ "[(n, cm, cv)]"]) simp
    next
      case False
      then have "bm' = bestMove" "v = minVal" using eq ex by simp_all
      then show ?thesis using v1 False by (intro exI[of _ "[(n, cm, cv)]"]) simp
    qed
  next
    case go: False
    let ?M = "if cv < minVal then cv else minVal"
    let ?bm = "if cv < minVal then Some cm else bestMove"
    let ?this3 = "this2\<lparr>chessEngine := undo E (chessEngine this2)\<rparr>"
    have "minimax_for K E h d sum0 False alpha (min cv beta) maxVal ?M ?bm rest ?this3
        = Some ((bm', v), this')"
      using eq go by simp
    from Cons.IH[OF this] obtain vs where vs:
      "visited K E h d sum0 False alpha (min cv beta) rest ?this3 = Some vs"
      "map fst vs = take (length vs) rest"
      "(bm' = ?bm \<and> v = ?M \<and> (\<forall>x\<in>set vs. ?M \<le> snd (snd x)))
        \<or> (v < ?M \<and> (\<exists>pre n m post. vs = pre @ (n, m, v) # post \<and> bm' = Some m
              \<and> (\<forall>x\<in>set pre. v < snd (snd x)) \<and> (\<forall>x\<in>set post. v \<le> snd (snd x))))"
      by blast
    have v1: "visited K E h d sum0 False alpha beta (n # rest) this = Some ((n, cm, cv) # vs)"
      using vis go vs(1) by simp
    have m1: "map fst ((n, cm, cv) # vs) = take (length ((n, cm, cv) # vs)) (n # rest)"
      using vs(2) by simp
    have "(bm' = bestMove \<and> v = minVal \<and> (\<forall>x\<in>set ((n, cm, cv) # vs). minVal \<le> snd (snd x)))
        \<or> (v < minVal \<and> (\<exists>pre n' m post. (n, cm, cv) # vs = pre @ (n', m, v) # post \<and> bm' = Some m
              \<and> (\<forall>x\<in>set pre. v < snd (snd x)) \<and> (\<forall>x\<in>set post. v \<le> snd (snd x))))"
      using vs(3)
    proof (elim disjE conjE exE)
      assume a: "bm' = ?bm" "v = ?M" "\<forall>x\<in>set vs. ?M \<le> snd (snd x)"
      show ?thesis
      proof (cases "cv < minVal")
        case True
        then have "\<exists>pre n' m post. (n, cm, cv) # vs = pre @ (n', m, v) # post \<and> bm' = Some m
            \<and> (\<forall>x\<in>set pre. v < snd (snd x)) \<and> (\<forall>x\<in>set post. v \<le> snd (snd x))"
          using a by (intro exI[of _ "[]"] exI[of _ n] exI[of _ cm] exI[of _ vs]) simp
        then show ?thesis using True a(2) by simp
      next
        case False
        then show ?thesis using a by simp
      qed
    next
      fix pre n' m post
      assume b: "v < ?M" "vs = pre @ (n', m, v) # post" "bm' = Some m"
        "\<forall>x\<in>set pre. v < snd (snd x)" "\<forall>x\<in>set post. v \<le> snd (snd x)"
      have "v < cv" "v < minVal" using b(1) by (auto split: if_splits)
      then have "\<exists>pre n' m post. (n, cm, cv) # vs = pre @ (n', m, v) # post \<and> bm' = Some m
          \<and> (\<forall>x\<in>set pre. v < snd (snd x)) \<and> (\<forall>x\<in>set post. v \<le> snd (snd x))"
        using b by (intro exI[of _ "(n, cm, cv) # pre"] exI[of _ n'] exI[of _ m] exI[of _ post]) simp
      then show ?thesis using \<open>v < minVal\<close> by simp
    qed
    then show ?thesis using v1 m1 by (intro exI[of _ "(n, cm, cv) # vs"]) simp
  qed
qed

text \<open>
  From a finite score every value the search returns is finite: the evaluator adds
  finite quantities, and the first child of a node replaces the initial infinity.
\<close>

lemma evaluateBoard_finite:
  assumes "evaluateBoard K h this mv (Num s) = Some r"
  shows "\<exists>s'. r = Num s'"
  using assms
  by (auto simp: evaluateBoard_def Let_def num_sub_def bind_eq_Some_conv
      split: option.splits if_splits)

lemma minimax_for_finite_max:
  assumes child: "\<And>s mx a b this r v this'.
       minimax K E h d (Num s) mx a b this = Some ((r, v), this') \<Longrightarrow> \<exists>s'. v = Num s'"
    and "minimax_for K E h d (Num s) True alpha beta maxVal minVal bestMove ns this = Some ((bm', v), this')"
    and "maxVal \<noteq> Infinity" and "ns \<noteq> [] \<or> maxVal \<noteq> NegInfinity"
  shows "\<exists>s'. v = Num s'"
  using assms(2-)
proof (induction ns arbitrary: alpha maxVal bestMove this)
  case Nil
  then show ?case by (cases maxVal) (auto simp: loop_exit_def)
next
  case (Cons n rest)
  from minimax_for_Cons_Some[OF Cons.prems(1)] obtain cm e1 newSum uu cv this2 where s:
    "move E (chessEngine this) (San n) = (Some cm, e1)"
    "evaluateBoard K h (this\<lparr>chessEngine := e1\<rparr>) cm (Num s) = Some newSum"
    "minimax K E h d newSum (\<not> True) alpha beta (this\<lparr>chessEngine := e1\<rparr>) = Some ((uu, cv), this2)"
    by blast
  obtain s1 where s1: "newSum = Num s1" using evaluateBoard_finite[OF s(2)] by blast
  obtain c where c: "cv = Num c" using child[OF s(3)[unfolded s1]] by blast
  note eq = Cons.prems(1)[unfolded minimax_for_Cons[OF s]]
  have M: "(if maxVal < cv then cv else maxVal) \<noteq> Infinity"
       "(if maxVal < cv then cv else maxVal) \<noteq> NegInfinity"
    using Cons.prems(2) c by (cases maxVal; simp add: less_number_def less_eq_number_def)+
  show ?case
  proof (cases "beta \<le> max alpha cv")
    case ex: True
    then have "v = (if maxVal < cv then cv else maxVal)" using eq by simp
    then show ?thesis using M by (cases v) auto
  next
    case go: False
    then have "minimax_for K E h d (Num s) True (max alpha cv) beta (if maxVal < cv then cv else maxVal)
        minVal (if maxVal < cv then Some cm else bestMove) rest
        (this2\<lparr>chessEngine := undo E (chessEngine this2)\<rparr>) = Some ((bm', v), this')"
      using eq by simp
    from Cons.IH[OF this M(1)] M(2) show ?thesis by simp
  qed
qed

lemma minimax_for_finite_min:
  assumes child: "\<And>s mx a b this r v this'.
       minimax K E h d (Num s) mx a b this = Some ((r, v), this') \<Longrightarrow> \<exists>s'. v = Num s'"
    and "minimax_for K E h d (Num s) False alpha beta maxVal minVal bestMove ns this = Some ((bm', v), this')"
    and "minVal \<noteq> NegInfinity" and "ns \<noteq> [] \<or> minVal \<noteq> Infinity"
  shows "\<exists>s'. v = Num s'"
  using assms(2-)
proof (induction ns arbitrary: beta minVal bestMove this)
  case Nil
  then show ?case by (cases minVal) (auto simp: loop_exit_def)
next
  case (Cons n rest)
  from minimax_for_Cons_Some[OF Cons.prems(1)] obtain cm e1 newSum uu cv this2 where s:
    "move E (chessEngine this) (San n) = (Some cm, e1)"
    "evaluateBoard K h (this\<lparr>chessEngine := e1\<rparr>) cm (Num s) = Some newSum"
    "minimax K E h d newSum (\<not> False) alpha beta (this\<lparr>chessEngine := e1\<rparr>) = Some ((uu, cv), this2)"
    by blast
  obtain s1 where s1: "newSum = Num s1" using evaluateBoard_finite[OF s(2)] by blast
  obtain c where c: "cv = Num c" using child[OF s(3)[unfolded s1]] by blast
  note eq = Cons.prems(1)[unfolded minimax_for_Cons[OF s]]
  have M: "(if cv < minVal then cv else minVal) \<noteq> NegInfinity"
       "(if cv < minVal then cv else minVal) \<noteq> Infinity"
    using Cons.prems(2) c by (cases minVal; simp add: less_number_def less_eq_number_def)+
  show ?case
  proof (cases "min cv beta \<le> alpha")
    case ex: True
    then have "v = (if cv < minVal then cv else minVal)" using eq by simp
    then show ?thesis using M by (cases v) auto
  next
    case go: False
    then have "minimax_for K E h d (Num s) False alpha (min cv beta) maxVal
        (if cv < minVal then cv else minVal) (if cv < minVal then Some cm else bestMove) rest
        (this2\<lparr>chessEngine := undo E (chessEngine this2)\<rparr>) = Some ((bm', v), this')"
      using eq by simp
    from Cons.IH[OF this M(1)] M(2) show ?thesis by simp
  qed
qed

lemma minimax_finite:
  assumes "minimax K E h d (Num s) mx alpha beta this = Some ((r, v), this')"
  shows "\<exists>s'. v = Num s'"
  using assms
proof (induction d arbitrary: s mx alpha beta this r v this')
  case 0
  then show ?case by auto
next
  case (Suc d)
  show ?case
  proof (cases "moves E (chessEngine this) = []")
    case True
    then show ?thesis using Suc.prems by auto
  next
    case False
    then have l: "minimax_for K E h d (Num s) mx alpha beta NegInfinity Infinity None
        (moves E (chessEngine this)) this = Some ((r, v), this')"
      using Suc.prems by simp
    show ?thesis
    proof (cases mx)
      case True
      then have "minimax_for K E h d (Num s) True alpha beta NegInfinity Infinity None
          (moves E (chessEngine this)) this = Some ((r, v), this')"
        using l by simp
      from minimax_for_finite_max[OF Suc.IH this] False show ?thesis by simp
    next
      case mn: False
      then have "minimax_for K E h d (Num s) False alpha beta NegInfinity Infinity None
          (moves E (chessEngine this)) this = Some ((r, v), this')"
        using l by simp
      from minimax_for_finite_min[OF Suc.IH this] False show ?thesis by simp
    qed
  qed
qed

text \<open>The tie node of the sample, worked out.\<close>

lemma white_tie_list: "moves sample_engine (chessEngine white_tie) = [''Nf3'', ''Nc3'']"
  by (simp add: white_tie_def sample_engine_def sample_moves_def)

lemma white_tie_has_moves: "moves sample_engine (chessEngine white_tie) \<noteq> []"
  by (simp add: white_tie_list)

lemma white_tie_first_child:
  "minimax sample_env sample_engine white_heap 0 (Num 37) (\<not> True) NegInfinity Infinity
      (white_tie\<lparr>chessEngine := [''Nf3'', ''e5'', ''d4'']\<rparr>)
      = Some ((None, Num 37), white_tie\<lparr>chessEngine := [''Nf3'', ''e5'', ''d4'']\<rparr>)"
  by simp

lemma white_tie_node:
  "minimax sample_env sample_engine white_heap (Suc 0) (Num 0) True NegInfinity Infinity white_tie
     = Some ((Some white_Nf3, Num 37), white_tie)"
  using white_tie_second_child white_tie_moves(3)
  by (simp only: minimax.simps white_tie_list
      minimax_for_Cons[OF white_tie_moves(1) white_tie_scores(1) white_tie_first_child])
     (simp add: less_number_def less_eq_number_def max_def)

lemma white_tie_second_visit:
  "minimax sample_env sample_engine white_heap 0 (Num 37) (\<not> True) (Num 37) Infinity
      (white_tie\<lparr>chessEngine := [''Nc3'', ''e5'', ''d4'']\<rparr>)
      = Some ((None, Num 37), white_tie\<lparr>chessEngine := [''Nc3'', ''e5'', ''d4'']\<rparr>)"
  by simp

lemma white_tie_visited:
  "visited sample_env sample_engine white_heap 0 (Num 0) True NegInfinity Infinity
      [''Nf3'', ''Nc3''] white_tie
     = Some [(''Nf3'', white_Nf3, Num 37), (''Nc3'', white_Nc3, Num 37)]"
proof -
  have second: "visited sample_env sample_engine white_heap 0 (Num 0) True (Num 37) Infinity
      [''Nc3''] white_tie = Some [(''Nc3'', white_Nc3, Num 37)]"
    by (simp only: visited_Cons[OF white_tie_moves(2) white_tie_scores(2) white_tie_second_visit])
       (simp add: less_number_def less_eq_number_def max_def)
  have third: "(white_tie\<lparr>chessEngine := [''Nf3'', ''e5'', ''d4'']\<rparr>)
      \<lparr>chessEngine := undo sample_engine
         (chessEngine (white_tie\<lparr>chessEngine := [''Nf3'', ''e5'', ''d4'']\<rparr>))\<rparr> = white_tie"
    using white_tie_moves(3) by simp
  show ?thesis
    by (simp only: visited_Cons[OF white_tie_moves(1) white_tie_scores(1) white_tie_first_child]
          third)
       (simp add: less_number_def less_eq_number_def max_def second del: visited.simps)
qed

text \<open>
  Claim C8. A node with moves that returns normally has looked at a non-empty prefix of
  the engine's move list. At a maximising node the move returned is that of a child
  whose \<^verbatim>\<open>childValue\<close> is the value returned, every child looked at before it has a
  strictly smaller value, and no child looked at after it has a greater one: among
  children of equal value the search keeps the earliest, and a later child replaces the
  best only when it is strictly greater. Symmetrically at a minimising node. The one
  other outcome is that every child returned \<^verbatim>\<open>-Infinity\<close> (\<^verbatim>\<open>+Infinity\<close> at a minimising
  node), in which case \<^verbatim>\<open>bestMove\<close> is never assigned; it does not occur when the score
  at the node is finite.
\<close>

theorem C8_tie_break:
  assumes "minimax K E h (Suc d) sum0 mx alpha beta this = Some ((bestMove, v), this')"
    and "moves E (chessEngine this) \<noteq> []"
  shows "\<exists>vs. visited K E h d sum0 mx alpha beta (moves E (chessEngine this)) this = Some vs
     \<and> vs \<noteq> [] \<and> map fst vs = take (length vs) (moves E (chessEngine this))
     \<and> (mx \<longrightarrow> (bestMove = None \<and> v = NegInfinity \<and> (\<forall>x\<in>set vs. snd (snd x) = NegInfinity))
          \<or> (\<exists>pre n m post. vs = pre @ (n, m, v) # post \<and> bestMove = Some m
              \<and> (\<forall>x\<in>set pre. snd (snd x) < v) \<and> (\<forall>x\<in>set post. snd (snd x) \<le> v)))
     \<and> (\<not> mx \<longrightarrow> (bestMove = None \<and> v = Infinity \<and> (\<forall>x\<in>set vs. snd (snd x) = Infinity))
          \<or> (\<exists>pre n m post. vs = pre @ (n, m, v) # post \<and> bestMove = Some m
              \<and> (\<forall>x\<in>set pre. v < snd (snd x)) \<and> (\<forall>x\<in>set post. v \<le> snd (snd x))))
     \<and> ((\<exists>s. sum0 = Num s) \<longrightarrow> bestMove \<noteq> None \<and> (\<exists>s'. v = Num s'))"
proof -
  let ?ms = "moves E (chessEngine this)"
  have l: "minimax_for K E h d sum0 mx alpha beta NegInfinity Infinity None ?ms this
      = Some ((bestMove, v), this')"
    using assms by simp
  have fin: "\<exists>s'. v = Num s'" if "sum0 = Num s" for s
    using minimax_finite[OF assms(1)[unfolded that]] .
  show ?thesis
  proof (cases mx)
    case True
    then have l1: "minimax_for K E h d sum0 True alpha beta NegInfinity Infinity None ?ms this
        = Some ((bestMove, v), this')"
      using l by simp
    from minimax_for_first_max[OF l1] obtain vs where vs:
      "visited K E h d sum0 True alpha beta ?ms this = Some vs"
      "map fst vs = take (length vs) ?ms" "vs \<noteq> []"
      "(bestMove = None \<and> v = NegInfinity \<and> (\<forall>x\<in>set vs. snd (snd x) \<le> NegInfinity))
        \<or> (NegInfinity < v \<and> (\<exists>pre n m post. vs = pre @ (n, m, v) # post \<and> bestMove = Some m
              \<and> (\<forall>x\<in>set pre. snd (snd x) < v) \<and> (\<forall>x\<in>set post. snd (snd x) \<le> v)))"
      using assms(2) by blast
    have le: "x \<le> NegInfinity \<longleftrightarrow> x = NegInfinity" for x :: number
      by (cases x) (simp_all add: less_eq_number_def)
    have d: "(bestMove = None \<and> v = NegInfinity \<and> (\<forall>x\<in>set vs. snd (snd x) = NegInfinity))
          \<or> (\<exists>pre n m post. vs = pre @ (n, m, v) # post \<and> bestMove = Some m
              \<and> (\<forall>x\<in>set pre. snd (snd x) < v) \<and> (\<forall>x\<in>set post. snd (snd x) \<le> v))"
      using vs(4) by (simp add: le) blast
    have "bestMove \<noteq> None" if "sum0 = Num s" for s
      using d fin[OF that] by auto
    then show ?thesis using vs(1-3) d fin True by (intro exI[of _ vs]) auto
  next
    case False
    then have l1: "minimax_for K E h d sum0 False alpha beta NegInfinity Infinity None ?ms this
        = Some ((bestMove, v), this')"
      using l by simp
    from minimax_for_first_min[OF l1] obtain vs where vs:
      "visited K E h d sum0 False alpha beta ?ms this = Some vs"
      "map fst vs = take (length vs) ?ms" "vs \<noteq> []"
      "(bestMove = None \<and> v = Infinity \<and> (\<forall>x\<in>set vs. Infinity \<le> snd (snd x)))
        \<or> (v < Infinity \<and> (\<exists>pre n m post. vs = pre @ (n, m, v) # post \<and> bestMove = Some m
              \<and> (\<forall>x\<in>set pre. v < snd (snd x)) \<and> (\<forall>x\<in>set post. v \<le> snd (snd x))))"
      using assms(2) by blast
    have le: "Infinity \<le> x \<longleftrightarrow> x = Infinity" for x :: number
      by (cases x) (simp_all add: less_eq_number_def)
    have d: "(bestMove = None \<and> v = Infinity \<and> (\<forall>x\<in>set vs. snd (snd x) = Infinity))
          \<or> (\<exists>pre n m post. vs = pre @ (n, m, v) # post \<and> bestMove = Some m
              \<and> (\<forall>x\<in>set pre. v < snd (snd x)) \<and> (\<forall>x\<in>set post. v \<le> snd (snd x)))"
      using vs(4) by (simp add: le) blast
    have "bestMove \<noteq> None" if "sum0 = Num s" for s
      using d fin[OF that] by auto
    then show ?thesis using vs(1-3) d fin False by (intro exI[of _ vs]) auto
  qed
qed

text \<open>
  On the sample: after d4 e5 the engine lists Nf3 before Nc3, both children return 37,
  and the node returns Nf3.
\<close>

theorem C8_witness:
  "minimax sample_env sample_engine white_heap (Suc 0) (Num 0) True NegInfinity Infinity white_tie
     = Some ((Some white_Nf3, Num 37), white_tie)
   \<and> moves sample_engine (chessEngine white_tie) = [''Nf3'', ''Nc3'']
   \<and> visited sample_env sample_engine white_heap 0 (Num 0) True NegInfinity Infinity
        (moves sample_engine (chessEngine white_tie)) white_tie
      = Some [(''Nf3'', white_Nf3, Num 37), (''Nc3'', white_Nc3, Num 37)]
   \<and> white_Nf3 \<noteq> white_Nc3"
  using C8_tie_break[OF white_tie_node white_tie_has_moves] white_tie_node white_tie_list
    white_tie_visited
  by (simp add: white_Nf3_def white_Nc3_def mk_move_def)

end
